theory Spec2Isabelle
  imports Main "HOL-Library.AList" "HOL-Library.Sublist"
begin

section \<open>Simulation of a nondeterministic finite automaton (nfa.py)\<close>

text \<open>
  The development follows \<^verbatim>\<open>src/lab1/python/nfa.py\<close>: the character matcher
  \<^verbatim>\<open>Rule.match\<close>, the path reconstruction \<^verbatim>\<open>NFA.backtrace\<close> and the depth-first
  search \<^verbatim>\<open>NFA.exec\<close>. Every exception the Python code can raise is a value of the type
  \<open>error\<close>; a function that may raise returns \<open>error + 'a\<close>, with \<open>Inl\<close> for the exception.
\<close>

subsection \<open>Exceptions and Python primitives\<close>

datatype error = ValueError | IndexError | TypeError | KeyError | AttributeError

text \<open>
  A Python character is modelled by its code point in the range 0..255 (the type \<open>char\<close>);
  the header of the source file fixes the input alphabet to ASCII. The three predicates below
  are \<^verbatim>\<open>str.isdigit\<close>, \<^verbatim>\<open>str.isalnum\<close> and \<^verbatim>\<open>str.isspace\<close> on one code point of that
  range: besides the ASCII digits, \<^verbatim>\<open>isdigit\<close> holds for the superscript digits U+00B2, U+00B3
  and U+00B9; \<^verbatim>\<open>isalnum\<close> holds for the ASCII letters and digits, the Latin-1 letters, the
  superscript digits and the vulgar fractions U+00BC..U+00BE; \<^verbatim>\<open>isspace\<close> holds for
  U+0009..U+000D, U+001C..U+0020, U+0085 and U+00A0.
\<close>

definition isdigit_char :: "char \<Rightarrow> bool" where
  "isdigit_char c =
     (let n = (of_char c :: nat)
      in (48 \<le> n \<and> n \<le> 57) \<or> n = 178 \<or> n = 179 \<or> n = 185)"

definition isalnum_char :: "char \<Rightarrow> bool" where
  "isalnum_char c =
     (let n = (of_char c :: nat)
      in (48 \<le> n \<and> n \<le> 57) \<or> (65 \<le> n \<and> n \<le> 90) \<or> (97 \<le> n \<and> n \<le> 122)
         \<or> n = 170 \<or> n = 178 \<or> n = 179 \<or> n = 181 \<or> n = 185 \<or> n = 186
         \<or> (188 \<le> n \<and> n \<le> 190) \<or> (192 \<le> n \<and> n \<le> 214)
         \<or> (216 \<le> n \<and> n \<le> 246) \<or> (248 \<le> n \<and> n \<le> 255))"

definition isspace_char :: "char \<Rightarrow> bool" where
  "isspace_char c =
     (let n = (of_char c :: nat)
      in (9 \<le> n \<and> n \<le> 13) \<or> (28 \<le> n \<and> n \<le> 32) \<or> n = 133 \<or> n = 160)"

text \<open>The string methods: false on the empty string, otherwise every character qualifies.\<close>

definition isdigit :: "string \<Rightarrow> bool" where
  "isdigit s = (s \<noteq> [] \<and> list_all isdigit_char s)"

definition isalnum :: "string \<Rightarrow> bool" where
  "isalnum s = (s \<noteq> [] \<and> list_all isalnum_char s)"

definition isspace :: "string \<Rightarrow> bool" where
  "isspace s = (s \<noteq> [] \<and> list_all isspace_char s)"

text \<open>\<^verbatim>\<open>ord(s)\<close> raises TypeError unless \<open>s\<close> has exactly one character.\<close>

fun ord :: "string \<Rightarrow> error + nat" where
  "ord [c] = Inr (of_char c)"
| "ord s = Inl TypeError"

text \<open>
  \<^verbatim>\<open>xs[i]\<close> on a Python list: a negative index counts from the end, and an index outside
  \<open>-len(xs) .. len(xs) - 1\<close> raises IndexError.
\<close>

definition py_index :: "'a list \<Rightarrow> int \<Rightarrow> error + 'a" where
  "py_index xs i =
     (if 0 \<le> i \<and> i < int (length xs) then Inr (xs ! nat i)
      else if i < 0 \<and> - int (length xs) \<le> i then Inr (xs ! nat (int (length xs) + i))
      else Inl IndexError)"

subsection \<open>Data model\<close>

datatype RuleType = NORMAL | RANGE | SPECIAL | EPSILON

text \<open>
  The class \<^verbatim>\<open>Rule\<close>, with its fields \<^verbatim>\<open>dst\<close>, \<^verbatim>\<open>type\<close>, \<^verbatim>\<open>by\<close> and \<^verbatim>\<open>to\<close>; the last two
  are Python strings whose default is the empty string. The class gives \<^verbatim>\<open>type\<close> no default:
  the attribute is unset until it is assigned, and reading it then raises AttributeError. The
  loader leaves it unset on a rule token it does not recognise (such as \<^verbatim>\<open>abc\<close>) and still
  appends the rule. An assigned value is a member of \<^verbatim>\<open>RuleType\<close> or some other object,
  which equals none of the members.
\<close>

datatype type_attr = Unset | Member RuleType | Foreign

record Rule =
  rule_dst :: int
  rule_type :: type_attr
  rule_by :: string
  rule_to :: string

record Path =
  states :: "int list"
  consumes :: "string list"

record NFA =
  num_states :: int
  is_final :: "bool list"
  rules :: "Rule list list"

subsection \<open>The character matcher \<^verbatim>\<open>Rule.match\<close>\<close>

text \<open>
  The first comparison \<^verbatim>\<open>self.type == RuleType.NORMAL\<close> reads the attribute and raises
  AttributeError when it is unset; a value that is no member of the enumeration falls through
  to the last \<^verbatim>\<open>else\<close> and its ValueError. The chained comparison
  \<^verbatim>\<open>ord(self.by) <= ord(c) <= ord(self.to)\<close> evaluates \<^verbatim>\<open>ord(self.to)\<close> only when the first
  comparison holds.
\<close>

definition Rule_match :: "Rule \<Rightarrow> string \<Rightarrow> error + bool" where
  "Rule_match rule c =
     (case rule_type rule of
        Unset \<Rightarrow> Inl AttributeError
      | Member NORMAL \<Rightarrow> Inr (rule_by rule = c)
      | Member RANGE \<Rightarrow>
          (case ord (rule_by rule) of
             Inl e \<Rightarrow> Inl e
           | Inr lo \<Rightarrow>
               (case ord c of
                  Inl e \<Rightarrow> Inl e
                | Inr x \<Rightarrow>
                    if lo \<le> x
                    then (case ord (rule_to rule) of
                            Inl e \<Rightarrow> Inl e
                          | Inr hi \<Rightarrow> Inr (x \<le> hi))
                    else Inr False))
      | Member SPECIAL \<Rightarrow>
          (if rule_by rule = ''d'' then Inr (isdigit c)
           else if rule_by rule = ''w'' then Inr (isalnum c \<or> c = ''_'')
           else if rule_by rule = ''s'' then Inr (isspace c)
           else if rule_by rule = ''D'' then Inr (\<not> isdigit c)
           else if rule_by rule = ''W'' then Inr (\<not> isalnum c \<and> c \<noteq> ''_'')
           else if rule_by rule = ''S'' then Inr (\<not> isspace c)
           else if rule_by rule = ''.'' then Inr (c \<noteq> [CHR 0x0A] \<and> c \<noteq> [CHR 0x0D])
           else Inl ValueError)
      | Member EPSILON \<Rightarrow> Inl ValueError
      | Foreign \<Rightarrow> Inl ValueError)"

subsection \<open>Path reconstruction \<^verbatim>\<open>NFA.backtrace\<close>\<close>

text \<open>
  The trace dictionary maps a step number to the pair of the state and the remaining input
  recorded at that step. It is an association list, updated in place by
  \<^const>\<open>AList.update\<close>; \<^const>\<open>map_of\<close> is the lookup and a missing key raises KeyError.
\<close>

type_synonym trace = "(nat \<times> (int \<times> string)) list"

text \<open>
  The loop \<^verbatim>\<open>for i in range(step, 0, -1)\<close>: the second argument is the current \<open>i\<close>, the
  last two are the lists \<^verbatim>\<open>states\<close> and \<^verbatim>\<open>consumes\<close> built so far by \<^verbatim>\<open>append\<close>.
\<close>

fun backtrace_loop :: "trace \<Rightarrow> nat \<Rightarrow> int list \<Rightarrow> string list
    \<Rightarrow> error + (int list \<times> string list)" where
  "backtrace_loop path 0 sts cons = Inr (sts, cons)"
| "backtrace_loop path (Suc j) sts cons =
     (case map_of path (Suc j) of
        None \<Rightarrow> Inl KeyError
      | Some (q, r) \<Rightarrow>
          (case map_of path j of
             None \<Rightarrow> Inl KeyError
           | Some (q0, r0) \<Rightarrow>
               if r = r0 then backtrace_loop path j (sts @ [q]) (cons @ [''''])
               else (case r0 of
                       [] \<Rightarrow> Inl IndexError
                     | c # _ \<Rightarrow> backtrace_loop path j (sts @ [q]) (cons @ [[c]]))))"

definition backtrace :: "trace \<Rightarrow> error + Path" where
  "backtrace path =
     (if path = [] then Inl ValueError
      else (case backtrace_loop path (Max (set (map fst path))) [] [] of
              Inl e \<Rightarrow> Inl e
            | Inr (sts, cons) \<Rightarrow>
                Inr \<lparr>states = rev (sts @ [0]), consumes = rev cons\<rparr>))"

subsection \<open>The search \<^verbatim>\<open>NFA.exec\<close>\<close>

text \<open>
  A stack frame is \<^verbatim>\<open>(q, remaining_str, step)\<close>. The stack is a list whose head is the top:
  \<^verbatim>\<open>stack.append(x)\<close> is \<open>x # stack\<close> and \<^verbatim>\<open>stack.pop()\<close> takes the head.
\<close>

type_synonym frame = "int \<times> string \<times> nat"

record search =
  stack :: "frame list"
  path :: trace
  visited :: "(int \<times> string) set"

text \<open>
  The inner loop \<^verbatim>\<open>for rule in reversed(self.rules[q])\<close>, given the rules already reversed.
  It threads the stack and the visited set and stops at the first exception: the test
  \<^verbatim>\<open>rule.type == RuleType.EPSILON\<close> raises AttributeError on a rule without a type, and the
  matcher may raise.
\<close>

fun expand :: "string \<Rightarrow> nat \<Rightarrow> Rule list \<Rightarrow> frame list \<Rightarrow> (int \<times> string) set
    \<Rightarrow> error + (frame list \<times> (int \<times> string) set)" where
  "expand remaining_str step [] stk vis = Inr (stk, vis)"
| "expand remaining_str step (rule # rest) stk vis =
     (if rule_type rule = Unset then Inl AttributeError
      else if rule_type rule = Member EPSILON then
        (if (rule_dst rule, remaining_str) \<notin> vis
         then expand remaining_str step rest
                ((rule_dst rule, remaining_str, step + 1) # stk)
                (insert (rule_dst rule, remaining_str) vis)
         else expand remaining_str step rest stk vis)
      else if remaining_str \<noteq> [] then
        (case Rule_match rule [hd remaining_str] of
           Inl e \<Rightarrow> Inl e
         | Inr m \<Rightarrow>
             if m then expand remaining_str step rest
                         ((rule_dst rule, tl remaining_str, step + 1) # stk) vis
             else expand remaining_str step rest stk vis)
      else expand remaining_str step rest stk vis)"

text \<open>
  One iteration of \<^verbatim>\<open>while stack:\<close>. It either ends the call (\<open>Done\<close>: a returned value or a
  raised exception) or hands the next search state to the loop (\<open>Running\<close>).
\<close>

datatype outcome = Done "error + Path option" | Running search

definition exec_step :: "NFA \<Rightarrow> search \<Rightarrow> outcome" where
  "exec_step nfa st =
     (case stack st of
        [] \<Rightarrow> Done (Inr None)
      | (q, remaining_str, step) # stk \<Rightarrow>
          (let path' = AList.update step (q, remaining_str) (path st) in
           case py_index (is_final nfa) q of
             Inl e \<Rightarrow> Done (Inl e)
           | Inr fin \<Rightarrow>
               if fin \<and> remaining_str = [] then
                 (case backtrace path' of
                    Inl e \<Rightarrow> Done (Inl e)
                  | Inr p \<Rightarrow> Done (Inr (Some p)))
               else
                 (case py_index (rules nfa) q of
                    Inl e \<Rightarrow> Done (Inl e)
                  | Inr rs \<Rightarrow>
                      (case expand remaining_str step (rev rs) stk (visited st) of
                         Inl e \<Rightarrow> Done (Inl e)
                       | Inr (stk', vis') \<Rightarrow>
                           Running \<lparr>stack = stk', path = path', visited = vis'\<rparr>))))"

definition exec_init :: "string \<Rightarrow> search" where
  "exec_init text = \<lparr>stack = [(0, text, 0)], path = [], visited = {}\<rparr>"

text \<open>The first \<open>k\<close> iterations of the loop, from a given search state.\<close>

fun exec_iter :: "NFA \<Rightarrow> nat \<Rightarrow> search \<Rightarrow> outcome" where
  "exec_iter nfa 0 st = Running st"
| "exec_iter nfa (Suc k) st =
     (case exec_step nfa st of
        Done r \<Rightarrow> Done r
      | Running st' \<Rightarrow> exec_iter nfa k st')"

subsection \<open>Invariants of the search\<close>

text \<open>
  The keys of the trace are the numbers below \<open>n\<close>, and no frame on the stack has a step
  number above \<open>n\<close>.
\<close>

definition keys_below :: "nat \<Rightarrow> search \<Rightarrow> bool" where
  "keys_below n st \<longleftrightarrow>
     fst ` set (path st) = {..<n} \<and> (\<forall>f \<in> set (stack st). snd (snd f) \<le> n)"

text \<open>
  The remaining input of a frame is that of the frame that pushed it, or its tail. A trace is a
  chain up to step \<open>k\<close> when step 0 holds the whole input and each step up to \<open>k\<close> is
  related in this way to the step before. In the depth-first search the steps of the frames
  on the stack never increase from the top down, and every frame was pushed from the trace
  entry one step below it, which ends a chain.
\<close>

definition next_remaining :: "string \<Rightarrow> string \<Rightarrow> bool" where
  "next_remaining r0 r \<longleftrightarrow> r = r0 \<or> (r0 \<noteq> [] \<and> r = tl r0)"

definition chain :: "string \<Rightarrow> trace \<Rightarrow> nat \<Rightarrow> bool" where
  "chain text p k \<longleftrightarrow>
     (\<exists>q. map_of p 0 = Some (q, text)) \<and>
     (\<forall>i<k. \<exists>q0 r0 q r. map_of p i = Some (q0, r0) \<and> map_of p (Suc i) = Some (q, r)
         \<and> next_remaining r0 r)"

definition frame_ok :: "string \<Rightarrow> trace \<Rightarrow> frame \<Rightarrow> bool" where
  "frame_ok text p f \<longleftrightarrow>
     (case snd (snd f) of
        0 \<Rightarrow> fst (snd f) = text
      | Suc s0 \<Rightarrow> chain text p s0 \<and>
          (\<exists>q0 r0. map_of p s0 = Some (q0, r0) \<and> next_remaining r0 (fst (snd f))))"

definition dfs_inv :: "string \<Rightarrow> search \<Rightarrow> bool" where
  "dfs_inv text st \<longleftrightarrow>
     sorted_wrt (\<lambda>f g. snd (snd g) \<le> snd (snd f)) (stack st) \<and>
     (\<forall>f \<in> set (stack st). frame_ok text (path st) f)"

subsection \<open>Accepting runs and example automata\<close>

text \<open>
  An accepting run from state \<open>q\<close> on the input \<open>w\<close>, given as the list of the rules it
  takes: each rule is a rule of the current state; an epsilon rule leaves the input alone,
  any other rule matches the first character and consumes it; the run ends in a final state
  with no input left.
\<close>

fun accepting_run :: "NFA \<Rightarrow> int \<Rightarrow> string \<Rightarrow> Rule list \<Rightarrow> bool" where
  "accepting_run nfa q w [] = (w = [] \<and> py_index (is_final nfa) q = Inr True)"
| "accepting_run nfa q w (rule # run) =
     (case py_index (rules nfa) q of
        Inl e \<Rightarrow> False
      | Inr rs \<Rightarrow>
          rule \<in> set rs \<and>
          (if rule_type rule = Member EPSILON then accepting_run nfa (rule_dst rule) w run
           else w \<noteq> [] \<and> Rule_match rule [hd w] = Inr True
                \<and> accepting_run nfa (rule_dst rule) (tl w) run))"

definition normal_rule :: "int \<Rightarrow> string \<Rightarrow> Rule" where
  "normal_rule d c = \<lparr>rule_dst = d, rule_type = Member NORMAL, rule_by = c, rule_to = ''''\<rparr>"

definition epsilon_rule :: "int \<Rightarrow> Rule" where
  "epsilon_rule d = \<lparr>rule_dst = d, rule_type = Member EPSILON, rule_by = '''', rule_to = ''''\<rparr>"

text \<open>Two states, state 1 final, the rule \<^verbatim>\<open>0->1 a\<close>.\<close>

definition nfa_single :: NFA where
  "nfa_single = \<lparr>num_states = 2, is_final = [False, True],
     rules = [[normal_rule 1 ''a''], []]\<rparr>"

text \<open>
  Four states, state 3 final, the rules \<^verbatim>\<open>0->1 a\<close>, \<^verbatim>\<open>0->3 a\<close> and \<^verbatim>\<open>1->2 \e\<close>: the
  search first follows 0, 1, 2, fails there, and then accepts in state 3 at step 1.
\<close>

definition nfa_dead_branch :: NFA where
  "nfa_dead_branch = \<lparr>num_states = 4, is_final = [False, False, False, True],
     rules = [[normal_rule 1 ''a'', normal_rule 3 ''a''], [epsilon_rule 2], [], []]\<rparr>"

text \<open>
  Four states, state 3 final, the rules \<^verbatim>\<open>0->1 \e\<close>, \<^verbatim>\<open>0->3 a\<close> and \<^verbatim>\<open>1->2 \e\<close>: the
  abandoned branch 0, 1, 2 consumes nothing.
\<close>

definition nfa_epsilon_branch :: NFA where
  "nfa_epsilon_branch = \<lparr>num_states = 4, is_final = [False, False, False, True],
     rules = [[epsilon_rule 1, normal_rule 3 ''a''], [epsilon_rule 2], [], []]\<rparr>"

text \<open>
  Six states, state 4 final, the rules \<^verbatim>\<open>0->1 \e\<close>, \<^verbatim>\<open>0->3 a\<close>, \<^verbatim>\<open>1->2 \e\<close>,
  \<^verbatim>\<open>2->5 \e\<close> and \<^verbatim>\<open>3->4 b\<close>.
\<close>

definition nfa_long_branch :: NFA where
  "nfa_long_branch = \<lparr>num_states = 6, is_final = [False, False, False, False, True, False],
     rules = [[epsilon_rule 1, normal_rule 3 ''a''], [epsilon_rule 2], [epsilon_rule 5],
              [normal_rule 4 ''b''], [], []]\<rparr>"

text \<open>Two states, state 1 final, one SPECIAL rule with the unknown class tag \<open>x\<close>.\<close>

definition nfa_unknown_tag :: NFA where
  "nfa_unknown_tag = \<lparr>num_states = 2, is_final = [False, True],
     rules = [[\<lparr>rule_dst = 1, rule_type = Member SPECIAL, rule_by = ''x'', rule_to = ''''\<rparr>], []]\<rparr>"

text \<open>
  Automata that are not well-formed. The first is what the loader builds from the rule line
  \<^verbatim>\<open>0->1 abc\<close>: a rule without a type. The second has a rule into a state that does not
  exist (\<^verbatim>\<open>0->5 a\<close> with two states). The third has a RANGE rule whose bounds are the
  empty strings of the class.
\<close>

definition nfa_untyped_rule :: NFA where
  "nfa_untyped_rule = \<lparr>num_states = 2, is_final = [False, True],
     rules = [[\<lparr>rule_dst = 1, rule_type = Unset, rule_by = '''', rule_to = ''''\<rparr>], []]\<rparr>"

definition nfa_bad_destination :: NFA where
  "nfa_bad_destination = \<lparr>num_states = 2, is_final = [False, True],
     rules = [[normal_rule 5 ''a''], []]\<rparr>"

definition nfa_empty_bound :: NFA where
  "nfa_empty_bound = \<lparr>num_states = 2, is_final = [False, True],
     rules = [[\<lparr>rule_dst = 1, rule_type = Member RANGE, rule_by = '''', rule_to = ''''\<rparr>], []]\<rparr>"

subsection \<open>Configurations, well-formed automata and the explored set\<close>

text \<open>
  A configuration is a state with a remaining input. It is accepting when the state is final
  and nothing remains; its successors are the configurations one rule of its state leads to.
\<close>

definition configs :: "frame list \<Rightarrow> (int \<times> string) set" where
  "configs stk = (\<lambda>f. (fst f, fst (snd f))) ` set stk"

definition accepting :: "NFA \<Rightarrow> int \<times> string \<Rightarrow> bool" where
  "accepting nfa c \<longleftrightarrow> snd c = [] \<and> py_index (is_final nfa) (fst c) = Inr True"

definition successor :: "NFA \<Rightarrow> int \<times> string \<Rightarrow> int \<times> string \<Rightarrow> bool" where
  "successor nfa c c' \<longleftrightarrow>
     (\<exists>rs rule. py_index (rules nfa) (fst c) = Inr rs \<and> rule \<in> set rs \<and>
        fst c' = rule_dst rule \<and>
        (if rule_type rule = Member EPSILON then snd c' = snd c
         else snd c \<noteq> [] \<and> Rule_match rule [hd (snd c)] = Inr True \<and> snd c' = tl (snd c)))"

text \<open>
  The search has explored the set \<open>P\<close> when the start configuration and every visited
  configuration are in \<open>P\<close> or on the stack, no configuration of \<open>P\<close> is accepting, and
  every successor of a configuration of \<open>P\<close> is in \<open>P\<close> or on the stack.
\<close>

definition explored :: "NFA \<Rightarrow> string \<Rightarrow> (int \<times> string) set \<Rightarrow> search \<Rightarrow> bool" where
  "explored nfa text P st \<longleftrightarrow>
     (0, text) \<in> P \<union> configs (stack st) \<and>
     visited st \<subseteq> P \<union> configs (stack st) \<and>
     (\<forall>c \<in> P. \<not> accepting nfa c \<and>
        (\<forall>c'. successor nfa c c' \<longrightarrow> c' \<in> P \<union> configs (stack st)))"

text \<open>
  A well-formed automaton, as the loader builds it: \<^verbatim>\<open>is_final\<close> and \<^verbatim>\<open>rules\<close> have
  \<^verbatim>\<open>num_states\<close> entries, there is a state 0, every destination is a state, every rule has
  one of the four rule types, every class tag is known, and the bounds of a RANGE rule are
  single characters.
\<close>

definition wf_rule :: "NFA \<Rightarrow> Rule \<Rightarrow> bool" where
  "wf_rule nfa rule \<longleftrightarrow>
     0 \<le> rule_dst rule \<and> rule_dst rule < num_states nfa \<and>
     rule_type rule \<noteq> Unset \<and> rule_type rule \<noteq> Foreign \<and>
     (rule_type rule = Member SPECIAL \<longrightarrow>
        rule_by rule \<in> {''d'', ''w'', ''s'', ''D'', ''W'', ''S'', ''.''}) \<and>
     (rule_type rule = Member RANGE \<longrightarrow> length (rule_by rule) = 1 \<and> length (rule_to rule) = 1)"

definition wf_nfa :: "NFA \<Rightarrow> bool" where
  "wf_nfa nfa \<longleftrightarrow>
     0 < num_states nfa \<and>
     int (length (is_final nfa)) = num_states nfa \<and>
     int (length (rules nfa)) = num_states nfa \<and>
     (\<forall>rs \<in> set (rules nfa). \<forall>rule \<in> set rs. wf_rule nfa rule)"

text \<open>
  Every frame on the stack can be reached from the start: an accepting run from the frame
  gives one from state 0 on the whole input. Every frame holds a state of the automaton.
\<close>

definition sound_frames :: "NFA \<Rightarrow> string \<Rightarrow> search \<Rightarrow> bool" where
  "sound_frames nfa text st \<longleftrightarrow>
     (\<forall>f \<in> set (stack st). \<forall>run. accepting_run nfa (fst f) (fst (snd f)) run \<longrightarrow>
        (\<exists>run'. accepting_run nfa 0 text run'))"

definition frames_in_range :: "NFA \<Rightarrow> search \<Rightarrow> bool" where
  "frames_in_range nfa st \<longleftrightarrow> (\<forall>f \<in> set (stack st). 0 \<le> fst f \<and> fst f < num_states nfa)"

subsection \<open>Termination of the search loop\<close>

text \<open>
  The loop ends because a frame pushed by a character rule has a shorter remaining input, and
  a frame pushed by an epsilon rule uses up one configuration that was not yet in the visited
  set. With \<open>K\<close> the number of rules of the automaton, a frame whose remaining input has
  length \<open>n\<close> weighs \<open>(K + 1) ^ n\<close>, and a configuration not yet visited, among
  those an epsilon rule can still push, weighs one more than a frame with the same remaining
  input. The sum of all weights decreases in every iteration.
\<close>

definition fanout :: "NFA \<Rightarrow> nat" where
  "fanout nfa = length (concat (rules nfa))"

definition weight :: "NFA \<Rightarrow> string \<Rightarrow> nat" where
  "weight nfa r = Suc (fanout nfa) ^ length r"

definition eps_universe :: "NFA \<Rightarrow> frame list \<Rightarrow> (int \<times> string) set" where
  "eps_universe nfa stk =
     (rule_dst ` set (concat (rules nfa))) \<times> (\<Union>f \<in> set stk. set (suffixes (fst (snd f))))"

definition potential :: "NFA \<Rightarrow> (int \<times> string) set \<Rightarrow> frame list \<Rightarrow> (int \<times> string) set \<Rightarrow> nat" where
  "potential nfa U stk vis =
     (\<Sum>f\<leftarrow>stk. weight nfa (fst (snd f))) + (\<Sum>c \<in> U - vis. Suc (weight nfa (snd c)))"

definition search_measure :: "NFA \<Rightarrow> search \<Rightarrow> nat" where
  "search_measure nfa st = potential nfa (eps_universe nfa (stack st)) (stack st) (visited st)"

text \<open>
  The bound on the number of iterations of a call, from the weight of the initial search
  state: \<open>K\<close> rules and an input of length \<open>n\<close> give at most
  \<open>1 + (K + 1) ^ n + K * (n + 1) * (1 + (K + 1) ^ n)\<close> evaluations of the loop condition.
\<close>

definition exec_bound :: "NFA \<Rightarrow> string \<Rightarrow> nat" where
  "exec_bound nfa text =
     Suc (weight nfa text + fanout nfa * Suc (length text) * Suc (weight nfa text))"

text \<open>
  The pushes of the inner loop, each with the rule that made it: the body of the loop for one
  rule is \<open>expand\<close> on the list of that rule alone, and the frames it has put on the stack
  are recorded with the rule. The list ends where the loop raises.
\<close>

fun pushes :: "string \<Rightarrow> nat \<Rightarrow> Rule list \<Rightarrow> frame list \<Rightarrow> (int \<times> string) set
    \<Rightarrow> (Rule \<times> frame) list" where
  "pushes remaining_str step [] stk vis = []"
| "pushes remaining_str step (rule # rest) stk vis =
     (case expand remaining_str step [rule] stk vis of
        Inl e \<Rightarrow> []
      | Inr (stk1, vis1) \<Rightarrow>
          map (Pair rule) (take (length stk1 - length stk) stk1)
          @ pushes remaining_str step rest stk1 vis1)"

text \<open>
  The pushes of the iteration of \<^verbatim>\<open>while stack:\<close> that starts in a given search state (none
  when the stack is empty, when the lookup of the state fails or when the iteration returns
  the path), and among them the configurations pushed by an epsilon rule.
\<close>

definition pushed_by :: "NFA \<Rightarrow> search \<Rightarrow> (Rule \<times> frame) list" where
  "pushed_by nfa st =
     (case stack st of
        [] \<Rightarrow> []
      | (q, remaining_str, step) # stk \<Rightarrow>
          (case py_index (is_final nfa) q of
             Inl e \<Rightarrow> []
           | Inr fin \<Rightarrow>
               if fin \<and> remaining_str = [] then []
               else (case py_index (rules nfa) q of
                       Inl e \<Rightarrow> []
                     | Inr rs \<Rightarrow> pushes remaining_str step (rev rs) stk (visited st))))"

definition eps_pushed :: "NFA \<Rightarrow> search \<Rightarrow> (int \<times> string) list" where
  "eps_pushed nfa st =
     map (\<lambda>p. (fst (snd p), fst (snd (snd p))))
       (filter (\<lambda>p. rule_type (fst p) = Member EPSILON) (pushed_by nfa st))"

lemma finite_eps_universe: "finite (eps_universe nfa stk)"
  by (simp add: eps_universe_def)

lemma potential_eps_push:
  assumes "finite U" "c \<in> U" "c \<notin> vis" "snd c = r"
  shows "Suc (potential nfa U ((q, r, s) # stk) (insert c vis)) = potential nfa U stk vis"
proof -
  have mem: "c \<in> U - vis" using assms by simp
  have fin: "finite (U - vis)" using assms by simp
  have "(\<Sum>x \<in> U - vis. Suc (weight nfa (snd x)))
      = Suc (weight nfa (snd c)) + (\<Sum>x \<in> (U - vis) - {c}. Suc (weight nfa (snd x)))"
    by (rule sum.remove [OF fin mem])
  moreover have "U - insert c vis = (U - vis) - {c}" by auto
  ultimately show ?thesis using assms by (simp add: potential_def)
qed

lemma expand_Cons_cases:
  assumes "expand r s (rule # rest) stk vis = Inr res"
  obtains (skip) "expand r s rest stk vis = Inr res"
      "rule_type rule = Member EPSILON \<longrightarrow> (rule_dst rule, r) \<in> vis"
      "rule_type rule \<noteq> Member EPSILON \<longrightarrow> r = [] \<or> Rule_match rule [hd r] = Inr False"
  | (eps) "rule_type rule = Member EPSILON" "(rule_dst rule, r) \<notin> vis"
      "expand r s rest ((rule_dst rule, r, s + 1) # stk) (insert (rule_dst rule, r) vis) = Inr res"
  | (chr) "rule_type rule \<noteq> Member EPSILON" "r \<noteq> []" "Rule_match rule [hd r] = Inr True"
      "expand r s rest ((rule_dst rule, tl r, s + 1) # stk) vis = Inr res"
  using assms by (simp split: if_splits sum.splits)

lemma expand_potential:
  assumes "finite U" "\<forall>rule \<in> set rl. (rule_dst rule, r) \<in> U"
    and "expand r s rl stk vis = Inr (stk', vis')"
  shows "potential nfa U stk' vis'
         \<le> potential nfa U stk vis + (if r = [] then 0 else length rl * weight nfa (tl r))"
  using assms(2,3)
proof (induction rl arbitrary: stk vis)
  case Nil
  then show ?case by simp
next
  case (Cons rule rest)
  from Cons.prems(1) have rest: "\<forall>rule \<in> set rest. (rule_dst rule, r) \<in> U" by simp
  from Cons.prems(2) show ?case
  proof (cases rule: expand_Cons_cases)
    case skip
    from Cons.IH [OF rest skip(1)] show ?thesis by (auto split: if_splits)
  next
    case eps
    have "Suc (potential nfa U ((rule_dst rule, r, s + 1) # stk) (insert (rule_dst rule, r) vis))
          = potential nfa U stk vis"
      using assms(1) eps(2) Cons.prems(1) by (intro potential_eps_push) auto
    moreover from Cons.IH [OF rest eps(3)] have "potential nfa U stk' vis'
       \<le> potential nfa U ((rule_dst rule, r, s + 1) # stk) (insert (rule_dst rule, r) vis)
         + (if r = [] then 0 else length rest * weight nfa (tl r))" .
    ultimately show ?thesis by (auto split: if_splits)
  next
    case chr
    from Cons.IH [OF rest chr(4)] have "potential nfa U stk' vis'
       \<le> potential nfa U ((rule_dst rule, tl r, s + 1) # stk) vis
         + (if r = [] then 0 else length rest * weight nfa (tl r))" .
    moreover have "potential nfa U ((rule_dst rule, tl r, s + 1) # stk) vis
        = weight nfa (tl r) + potential nfa U stk vis"
      by (simp add: potential_def)
    ultimately show ?thesis using chr(2) by simp
  qed
qed

lemma expand_shape:
  "expand r s rl stk vis = Inr (stk', vis') \<Longrightarrow>
     \<exists>new. stk' = new @ stk \<and> vis \<subseteq> vis' \<and>
       (\<forall>f \<in> set new. snd (snd f) = Suc s \<and>
          (fst (snd f) = r \<or> (r \<noteq> [] \<and> fst (snd f) = tl r)))"
proof (induction rl arbitrary: stk vis)
  case Nil
  then show ?case by simp
next
  case (Cons rule rest)
  from Cons.prems show ?case
  proof (cases rule: expand_Cons_cases)
    case skip
    from skip(1) show ?thesis by (rule Cons.IH)
  next
    case eps
    from Cons.IH [OF eps(3)] obtain new where
      "stk' = new @ (rule_dst rule, r, s + 1) # stk" "insert (rule_dst rule, r) vis \<subseteq> vis'"
      "\<forall>f \<in> set new. snd (snd f) = Suc s \<and>
          (fst (snd f) = r \<or> (r \<noteq> [] \<and> fst (snd f) = tl r))"
      by blast
    then have "stk' = (new @ [(rule_dst rule, r, s + 1)]) @ stk \<and> vis \<subseteq> vis' \<and>
       (\<forall>f \<in> set (new @ [(rule_dst rule, r, s + 1)]). snd (snd f) = Suc s \<and>
          (fst (snd f) = r \<or> (r \<noteq> [] \<and> fst (snd f) = tl r)))"
      by simp
    then show ?thesis by blast
  next
    case chr
    from Cons.IH [OF chr(4)] obtain new where
      "stk' = new @ (rule_dst rule, tl r, s + 1) # stk" "vis \<subseteq> vis'"
      "\<forall>f \<in> set new. snd (snd f) = Suc s \<and>
          (fst (snd f) = r \<or> (r \<noteq> [] \<and> fst (snd f) = tl r))"
      by blast
    with chr(2) have "stk' = (new @ [(rule_dst rule, tl r, s + 1)]) @ stk \<and> vis \<subseteq> vis' \<and>
       (\<forall>f \<in> set (new @ [(rule_dst rule, tl r, s + 1)]). snd (snd f) = Suc s \<and>
          (fst (snd f) = r \<or> (r \<noteq> [] \<and> fst (snd f) = tl r)))"
      by simp
    then show ?thesis by blast
  qed
qed

lemma py_index_in_set: "py_index xs i = Inr x \<Longrightarrow> x \<in> set xs"
  by (auto simp: py_index_def split: if_splits)

lemma length_le_concat: "xs \<in> set xss \<Longrightarrow> length xs \<le> length (concat xss)"
  by (induction xss) auto

lemma eps_universe_mono:
  assumes "\<forall>f \<in> set stk'. \<exists>g \<in> set stk. suffix (fst (snd f)) (fst (snd g))"
  shows "eps_universe nfa stk' \<subseteq> eps_universe nfa stk"
proof
  fix c assume "c \<in> eps_universe nfa stk'"
  then obtain f where c: "fst c \<in> rule_dst ` set (concat (rules nfa))"
    and f: "f \<in> set stk'" "suffix (snd c) (fst (snd f))"
    unfolding eps_universe_def by (cases c) auto
  from assms f(1) obtain g where g: "g \<in> set stk" "suffix (fst (snd f)) (fst (snd g))"
    by blast
  from f(2) g(2) have "suffix (snd c) (fst (snd g))" by (rule suffix_order.trans)
  with g(1) have "snd c \<in> (\<Union>f \<in> set stk. set (suffixes (fst (snd f))))"
    by auto
  with c show "c \<in> eps_universe nfa stk"
    unfolding eps_universe_def by (cases c) simp
qed

lemma potential_universe_mono:
  assumes "finite U" "U' \<subseteq> U"
  shows "potential nfa U' stk vis \<le> potential nfa U stk vis"
proof -
  have "(\<Sum>c \<in> U' - vis. Suc (weight nfa (snd c))) \<le> (\<Sum>c \<in> U - vis. Suc (weight nfa (snd c)))"
    using assms by (intro sum_mono2) auto
  then show ?thesis by (simp add: potential_def)
qed

lemma weight_step:
  assumes "r \<noteq> []" "n \<le> fanout nfa"
  shows "n * weight nfa (tl r) < weight nfa r"
proof -
  from assms(1) obtain c r' where r: "r = c # r'" by (cases r) auto
  have "n * weight nfa r' \<le> fanout nfa * weight nfa r'"
    using assms(2) by simp
  also have "\<dots> < Suc (fanout nfa) * weight nfa r'"
    by (simp add: weight_def)
  finally show ?thesis by (simp add: r weight_def)
qed

lemma exec_step_decreases:
  assumes "exec_step nfa st = Running st'"
  shows "search_measure nfa st' < search_measure nfa st"
proof -
  from assms obtain q r s stk where stk: "stack st = (q, r, s) # stk"
    by (cases "stack st") (auto simp: exec_step_def)
  from assms stk obtain rs where rs: "py_index (rules nfa) q = Inr rs"
    by (auto simp: exec_step_def Let_def split: sum.splits if_splits)
  from assms stk rs have ex: "expand r s (rev rs) stk (visited st) = Inr (stack st', visited st')"
    by (auto simp: exec_step_def Let_def split: sum.splits if_splits)
  let ?U = "eps_universe nfa (stack st)"
  have rs_in: "rs \<in> set (rules nfa)" using rs by (rule py_index_in_set)
  have fin: "finite ?U" by (rule finite_eps_universe)
  have dsts: "\<forall>rule \<in> set (rev rs). (rule_dst rule, r) \<in> ?U"
    using rs_in by (auto simp: eps_universe_def stk in_set_suffixes)
  have le1: "potential nfa ?U (stack st') (visited st')
      \<le> potential nfa ?U stk (visited st)
        + (if r = [] then 0 else length (rev rs) * weight nfa (tl r))"
    by (rule expand_potential [OF fin dsts ex])
  from expand_shape [OF ex] obtain new where new: "stack st' = new @ stk"
    "\<forall>f \<in> set new. snd (snd f) = Suc s \<and>
          (fst (snd f) = r \<or> (r \<noteq> [] \<and> fst (snd f) = tl r))"
    by blast
  have "\<forall>f \<in> set (stack st'). \<exists>g \<in> set (stack st). suffix (fst (snd f)) (fst (snd g))"
  proof
    fix f assume "f \<in> set (stack st')"
    then consider "f \<in> set new" | "f \<in> set stk" using new(1) by auto
    then show "\<exists>g \<in> set (stack st). suffix (fst (snd f)) (fst (snd g))"
    proof cases
      case 1
      with new(2) have "suffix (fst (snd f)) r" by (auto simp: suffix_tl)
      then show ?thesis by (auto simp: stk)
    next
      case 2
      then show ?thesis by (auto simp: stk)
    qed
  qed
  then have sub: "eps_universe nfa (stack st') \<subseteq> ?U" by (rule eps_universe_mono)
  have le2: "search_measure nfa st' \<le> potential nfa ?U (stack st') (visited st')"
    unfolding search_measure_def by (rule potential_universe_mono [OF fin sub])
  have eq: "search_measure nfa st = weight nfa r + potential nfa ?U stk (visited st)"
    by (simp add: search_measure_def potential_def stk)
  have len: "length (rev rs) \<le> fanout nfa"
    using length_le_concat [OF rs_in] by (simp add: fanout_def)
  show ?thesis
  proof (cases "r = []")
    case True
    with le1 le2 eq show ?thesis by (simp add: weight_def)
  next
    case False
    from weight_step [OF False len] le1 le2 eq False show ?thesis by simp
  qed
qed

text \<open>
  The loop \<^verbatim>\<open>while stack:\<close> itself, and the method \<^verbatim>\<open>exec\<close>.
\<close>

function exec_loop :: "NFA \<Rightarrow> search \<Rightarrow> error + Path option" where
  "exec_loop nfa st =
     (case exec_step nfa st of
        Done r \<Rightarrow> r
      | Running st' \<Rightarrow> exec_loop nfa st')"
  by pat_completeness auto
termination
  by (relation "measure (\<lambda>(nfa, st). search_measure nfa st)")
     (auto intro: exec_step_decreases)


declare exec_loop.simps [simp del]

definition exec :: "NFA \<Rightarrow> string \<Rightarrow> error + Path option" where
  "exec nfa text = exec_loop nfa (exec_init text)"

section \<open>Properties\<close>

subsection \<open>The matcher\<close>

lemma ascii_digit_iff:
  "(48 \<le> (of_char c :: nat) \<and> (of_char c :: nat) \<le> 57) \<longleftrightarrow> c \<in> set ''0123456789''"
proof -
  have "(48 \<le> (of_char c :: nat) \<and> (of_char c :: nat) \<le> 57) \<longleftrightarrow>
        (of_char c :: nat) \<in> {48, 49, 50, 51, 52, 53, 54, 55, 56, 57}"
    by (simp only: insert_iff empty_iff) arith
  also have "\<dots> \<longleftrightarrow> (of_char c :: nat) \<in> of_char ` set ''0123456789''"
    by simp
  also have "\<dots> \<longleftrightarrow> c \<in> set ''0123456789''"
    by (rule inj_image_mem_iff) (simp add: inj_on_def)
  finally show ?thesis .
qed

text \<open>
  Claim C7, for ASCII characters: on a SPECIAL rule with class tag \<open>d\<close> and a single
  character \<open>c\<close> whose code point is below 128, \<^verbatim>\<open>Rule.match\<close> returns true if and only
  if \<open>c\<close> is one of the decimal digits \<open>0\<close> to \<open>9\<close>.
\<close>

theorem match_digit_ascii:
  assumes "rule_type rule = Member SPECIAL" "rule_by rule = ''d''" "(of_char c :: nat) < 128"
  shows "Rule_match rule [c] = Inr (c \<in> set ''0123456789'')"
proof -
  have "isdigit [c] \<longleftrightarrow> (48 \<le> (of_char c :: nat) \<and> (of_char c :: nat) \<le> 57)"
    using assms(3) by (auto simp: isdigit_def isdigit_char_def Let_def)
  then have "isdigit [c] \<longleftrightarrow> c \<in> set ''0123456789''"
    by (simp only: ascii_digit_iff)
  then show ?thesis using assms(1,2) by (simp add: Rule_match_def)
qed

theorem match_digit_ascii_witness:
  "rule_type \<lparr>rule_dst = 1, rule_type = Member SPECIAL, rule_by = ''d'', rule_to = ''''\<rparr> = Member SPECIAL
   \<and> rule_by \<lparr>rule_dst = 1, rule_type = Member SPECIAL, rule_by = ''d'', rule_to = ''''\<rparr> = ''d''
   \<and> (of_char CHR ''7'' :: nat) < 128
   \<and> Rule_match \<lparr>rule_dst = 1, rule_type = Member SPECIAL, rule_by = ''d'', rule_to = ''''\<rparr> ''7''
       = Inr True"
  using match_digit_ascii
    [of "\<lparr>rule_dst = 1, rule_type = Member SPECIAL, rule_by = ''d'', rule_to = ''''\<rparr>" "CHR ''7''"]
  by simp

text \<open>
  Outside ASCII the equivalence of claim C7 fails: \<^verbatim>\<open>str.isdigit\<close> holds for the
  superscript two (U+00B2), which is not one of \<open>0\<close> to \<open>9\<close>.
\<close>

theorem match_digit_superscript_two:
  "Rule_match \<lparr>rule_dst = 1, rule_type = Member SPECIAL, rule_by = ''d'', rule_to = ''''\<rparr> [CHR 0xB2] = Inr True
   \<and> CHR 0xB2 \<notin> set ''0123456789''"
  by (simp add: Rule_match_def isdigit_def isdigit_char_def)

text \<open>
  Claim C8, for rules whose type is one of the four members of \<^verbatim>\<open>RuleType\<close> and whose RANGE
  bounds are single characters: on a single character, \<^verbatim>\<open>Rule.match\<close> raises if and only if
  the rule is an EPSILON rule or a SPECIAL rule whose tag is not one of \<open>d\<close>, \<open>w\<close>, \<open>s\<close>,
  \<open>D\<close>, \<open>W\<close>, \<open>S\<close>, \<open>.\<close>; on every other rule it returns a boolean.
\<close>

theorem match_raises_iff:
  assumes "rule_type rule = Member t"
    and "t = RANGE \<longrightarrow> length (rule_by rule) = 1 \<and> length (rule_to rule) = 1"
  shows "((\<exists>e. Rule_match rule [c] = Inl e) \<longleftrightarrow>
            (t = EPSILON \<or>
             (t = SPECIAL \<and> rule_by rule \<notin> {''d'', ''w'', ''s'', ''D'', ''W'', ''S'', ''.''})))
         \<and> ((\<exists>b. Rule_match rule [c] = Inr b) \<longleftrightarrow>
            \<not> (t = EPSILON \<or>
             (t = SPECIAL \<and> rule_by rule \<notin> {''d'', ''w'', ''s'', ''D'', ''W'', ''S'', ''.''})))"
proof (cases t)
  case NORMAL
  with assms(1) show ?thesis by (simp add: Rule_match_def)
next
  case RANGE
  with assms(2) obtain a b where "rule_by rule = [a]" "rule_to rule = [b]"
    by (auto simp: length_Suc_conv)
  with RANGE assms(1) show ?thesis by (auto simp: Rule_match_def)
next
  case SPECIAL
  with assms(1) show ?thesis by (simp add: Rule_match_def)
next
  case EPSILON
  with assms(1) show ?thesis by (simp add: Rule_match_def)
qed

theorem match_raises_iff_witness:
  "rule_type \<lparr>rule_dst = 1, rule_type = Member RANGE, rule_by = ''a'', rule_to = ''z''\<rparr>
     = Member RANGE
   \<and> length (rule_by \<lparr>rule_dst = 1, rule_type = Member RANGE, rule_by = ''a'', rule_to = ''z''\<rparr>)
       = 1
   \<and> length (rule_to \<lparr>rule_dst = 1, rule_type = Member RANGE, rule_by = ''a'', rule_to = ''z''\<rparr>)
       = 1
   \<and> (\<exists>b. Rule_match \<lparr>rule_dst = 1, rule_type = Member RANGE, rule_by = ''a'', rule_to = ''z''\<rparr>
          ''m'' = Inr b)"
  using match_raises_iff
    [of "\<lparr>rule_dst = 1, rule_type = Member RANGE, rule_by = ''a'', rule_to = ''z''\<rparr>" RANGE
        "CHR ''m''"]
  by simp

text \<open>
  For every rule, as claim C8 has it, the equivalence fails. The loader appends a rule
  without a type for a token it does not recognise, such as \<^verbatim>\<open>abc\<close> in the line
  \<^verbatim>\<open>0->1 abc\<close>; the rule is neither an EPSILON nor a SPECIAL rule, and \<^verbatim>\<open>Rule.match\<close>
  raises AttributeError on it. A RANGE rule whose \<^verbatim>\<open>by\<close> is still the empty string of the
  class makes \<^verbatim>\<open>ord\<close> raise TypeError.
\<close>

theorem match_raises_on_other_rules:
  "Rule_match \<lparr>rule_dst = 1, rule_type = Unset, rule_by = '''', rule_to = ''''\<rparr> ''a''
     = Inl AttributeError
   \<and> Rule_match \<lparr>rule_dst = 1, rule_type = Member RANGE, rule_by = '''', rule_to = ''''\<rparr> ''a''
     = Inl TypeError"
  by (simp add: Rule_match_def)

subsection \<open>One iteration and the loop\<close>

lemma exec_loop_invariant:
  assumes "I st"
    and "\<And>st st'. I st \<Longrightarrow> exec_step nfa st = Running st' \<Longrightarrow> I st'"
    and "\<And>st r. I st \<Longrightarrow> exec_step nfa st = Done r \<Longrightarrow> P r"
  shows "P (exec_loop nfa st)"
  using assms(1)
proof (induction "search_measure nfa st" arbitrary: st rule: less_induct)
  case less
  show ?case
  proof (cases "exec_step nfa st")
    case (Done r)
    with assms(3) [OF less.prems] show ?thesis
      by (simp add: exec_loop.simps [of nfa st])
  next
    case (Running st')
    from assms(2) [OF less.prems Running] have "I st'" .
    with less.hyps [OF exec_step_decreases [OF Running]] Running show ?thesis
      by (simp add: exec_loop.simps [of nfa st])
  qed
qed

lemma exec_iter_invariant:
  assumes "I st"
    and "\<And>st st'. I st \<Longrightarrow> exec_step nfa st = Running st' \<Longrightarrow> I st'"
    and "exec_iter nfa k st = Running st'"
  shows "I st'"
  using assms(1,3)
proof (induction k arbitrary: st)
  case 0
  then show ?case by simp
next
  case (Suc k)
  from Suc.prems(2) obtain st1 where st1: "exec_step nfa st = Running st1"
    "exec_iter nfa k st1 = Running st'"
    by (auto split: outcome.splits)
  from assms(2) [OF Suc.prems(1) st1(1)] have "I st1" .
  then show ?case using st1(2) by (rule Suc.IH)
qed

lemma exec_step_accept:
  assumes "exec_step nfa st = Done (Inr (Some p))"
  obtains q s stk where "stack st = (q, [], s) # stk"
    "py_index (is_final nfa) q = Inr True"
    "backtrace (AList.update s (q, []) (path st)) = Inr p"
proof -
  from assms obtain q r s stk where stk: "stack st = (q, r, s) # stk"
    by (cases "stack st") (auto simp: exec_step_def)
  from assms stk have "py_index (is_final nfa) q = Inr True \<and> r = [] \<and>
      backtrace (AList.update s (q, r) (path st)) = Inr p"
    by (simp add: exec_step_def Let_def split: sum.splits if_splits prod.splits)
  with stk that show ?thesis by blast
qed

lemma exec_step_running:
  assumes "exec_step nfa st = Running st'"
  obtains q r s stk rs where "stack st = (q, r, s) # stk"
    "py_index (rules nfa) q = Inr rs"
    "expand r s (rev rs) stk (visited st) = Inr (stack st', visited st')"
    "path st' = AList.update s (q, r) (path st)"
proof -
  from assms obtain q r s stk where stk: "stack st = (q, r, s) # stk"
    by (cases "stack st") (auto simp: exec_step_def)
  from assms stk obtain rs where rs: "py_index (rules nfa) q = Inr rs"
    by (auto simp: exec_step_def Let_def split: sum.splits if_splits)
  from assms stk rs have "expand r s (rev rs) stk (visited st) = Inr (stack st', visited st')
      \<and> path st' = AList.update s (q, r) (path st)"
    by (auto simp: exec_step_def Let_def split: sum.splits if_splits)
  with stk rs that show ?thesis by blast
qed

lemma backtrace_loop_length:
  "backtrace_loop p j sts cons = Inr (sts', cons') \<Longrightarrow>
     length sts' = length sts + j \<and> length cons' = length cons + j"
proof (induction j arbitrary: sts cons)
  case 0
  then show ?case by simp
next
  case (Suc j)
  from Suc.prems obtain q c where "backtrace_loop p j (sts @ [q]) (cons @ [c]) = Inr (sts', cons')"
    by (auto split: option.splits if_splits list.splits)
  from Suc.IH [OF this] show ?case by simp
qed

lemma backtrace_shape:
  assumes "backtrace p = Inr pth"
  shows "states pth \<noteq> [] \<and> hd (states pth) = 0 \<and> length (consumes pth) = length (states pth) - 1"
proof -
  from assms obtain sts cons where bl: "backtrace_loop p (Max (set (map fst p))) [] [] = Inr (sts, cons)"
    and pth: "pth = \<lparr>states = rev (sts @ [0]), consumes = rev cons\<rparr>"
    by (auto simp: backtrace_def split: if_splits sum.splits)
  from backtrace_loop_length [OF bl] pth show ?thesis by simp
qed

lemma exec_iter_Done: "exec_iter nfa k st = Done r \<Longrightarrow> exec_loop nfa st = r"
proof (induction k arbitrary: st)
  case 0
  then show ?case by simp
next
  case (Suc k)
  show ?case
  proof (cases "exec_step nfa st")
    case (Done r')
    with Suc.prems show ?thesis by (simp add: exec_loop.simps [of nfa st])
  next
    case (Running st')
    with Suc.prems have "exec_iter nfa k st' = Done r" by simp
    from Suc.IH [OF this] Running show ?thesis by (simp add: exec_loop.simps [of nfa st])
  qed
qed

lemma exec_by_iter: "exec_iter nfa k (exec_init text) = Done r \<Longrightarrow> exec nfa text = r"
  unfolding exec_def by (rule exec_iter_Done)

subsection \<open>The shape of a returned path\<close>

text \<open>
  Claim C9: if state 0 is marked final and the input is empty, \<^verbatim>\<open>exec\<close> returns the path
  whose states are \<open>[0]\<close> and whose consumes list is empty.
\<close>

theorem exec_start_final_empty:
  assumes "py_index (is_final nfa) 0 = Inr True"
  shows "exec nfa [] = Inr (Some \<lparr>states = [0], consumes = []\<rparr>)"
proof -
  have "exec_step nfa (exec_init []) = Done (Inr (Some \<lparr>states = [0], consumes = []\<rparr>))"
    using assms by (simp add: exec_step_def exec_init_def backtrace_def)
  then show ?thesis
    by (simp add: exec_def exec_loop.simps [of nfa "exec_init []"])
qed

theorem exec_start_final_empty_witness:
  "py_index (is_final \<lparr>num_states = 1, is_final = [True], rules = [[]]\<rparr>) 0 = Inr True
   \<and> exec \<lparr>num_states = 1, is_final = [True], rules = [[]]\<rparr> []
       = Inr (Some \<lparr>states = [0], consumes = []\<rparr>)"
  using exec_start_final_empty [of "\<lparr>num_states = 1, is_final = [True], rules = [[]]\<rparr>"]
  by (simp add: py_index_def)

text \<open>
  Claim C6: if \<^verbatim>\<open>exec\<close> returns a path, then its states list begins with 0 and its
  consumes list has one entry less than its states list.
\<close>

theorem exec_path_shape:
  "exec nfa text = Inr (Some p) \<Longrightarrow>
     states p \<noteq> [] \<and> hd (states p) = 0 \<and> length (consumes p) = length (states p) - 1"
proof -
  have "\<forall>p. exec_loop nfa (exec_init text) = Inr (Some p) \<longrightarrow>
     states p \<noteq> [] \<and> hd (states p) = 0 \<and> length (consumes p) = length (states p) - 1"
  proof (rule exec_loop_invariant [where I = "\<lambda>_. True"])
    fix st r assume "exec_step nfa st = Done r"
    show "\<forall>p. r = Inr (Some p) \<longrightarrow>
       states p \<noteq> [] \<and> hd (states p) = 0 \<and> length (consumes p) = length (states p) - 1"
    proof (intro allI impI)
      fix p assume "r = Inr (Some p)"
      with \<open>exec_step nfa st = Done r\<close> have "exec_step nfa st = Done (Inr (Some p))" by simp
      then obtain q s where "backtrace (AList.update s (q, []) (path st)) = Inr p"
        by (rule exec_step_accept)
      then show "states p \<noteq> [] \<and> hd (states p) = 0 \<and> length (consumes p) = length (states p) - 1"
        by (rule backtrace_shape)
    qed
  qed simp_all
  then show "exec nfa text = Inr (Some p) \<Longrightarrow>
     states p \<noteq> [] \<and> hd (states p) = 0 \<and> length (consumes p) = length (states p) - 1"
    by (simp add: exec_def)
qed

theorem exec_path_shape_witness:
  "exec nfa_single ''a'' = Inr (Some \<lparr>states = [0, 1], consumes = [''a'']\<rparr>)
   \<and> states \<lparr>states = [0, 1], consumes = [''a'']\<rparr> \<noteq> []
   \<and> hd (states \<lparr>states = [0, 1], consumes = [''a'']\<rparr>) = 0
   \<and> length (consumes \<lparr>states = [0, 1], consumes = [''a'']\<rparr>)
       = length (states \<lparr>states = [0, 1], consumes = [''a'']\<rparr>) - 1"
proof -
  have run: "exec nfa_single ''a'' = Inr (Some \<lparr>states = [0, 1], consumes = [''a'']\<rparr>)"
    by (rule exec_by_iter [where k = 2]) code_simp
  from exec_path_shape [OF run] run show ?thesis by simp
qed

subsection \<open>The keys of the trace\<close>

lemma keys_update: "fst ` set (AList.update k v al) = insert k (fst ` set al)"
  by (simp add: AList.dom_update)

lemma backtrace_loop_no_KeyError:
  assumes "\<forall>i \<le> j. i \<in> fst ` set p"
  shows "backtrace_loop p j sts cons \<noteq> Inl KeyError"
  using assms
proof (induction j arbitrary: sts cons)
  case 0
  then show ?case by simp
next
  case (Suc j)
  from Suc.prems have "Suc j \<in> fst ` set p" "j \<in> fst ` set p" by auto
  then obtain q r q0 r0 where v: "map_of p (Suc j) = Some (q, r)" "map_of p j = Some (q0, r0)"
    by (metis map_of_eq_None_iff not_Some_eq surj_pair)
  from Suc.prems have sub: "\<forall>i \<le> j. i \<in> fst ` set p" by simp
  show ?case
  proof (cases "r = r0")
    case True
    with v Suc.IH [OF sub] show ?thesis by simp
  next
    case False
    with v Suc.IH [OF sub] show ?thesis by (cases r0) simp_all
  qed
qed

lemma backtrace_no_KeyError:
  assumes "fst ` set p = {..m}"
  shows "backtrace p \<noteq> Inl KeyError"
proof -
  have "Max {..m} = m" by (rule Max_eqI) simp_all
  then have "Max (set (map fst p)) = m" using assms by simp
  moreover have "backtrace_loop p m [] [] \<noteq> Inl KeyError"
    using assms by (intro backtrace_loop_no_KeyError) simp
  ultimately show ?thesis
    by (auto simp: backtrace_def split: sum.splits)
qed

lemma keys_below_init: "keys_below 0 (exec_init text)"
  by (simp add: keys_below_def exec_init_def)

lemma keys_below_record:
  assumes "keys_below n st" "stack st = (q, r, s) # stk"
  shows "fst ` set (AList.update s (q, r) (path st)) = {..<max n (Suc s)}"
proof -
  from assms have "s \<le> n" and k: "fst ` set (path st) = {..<n}"
    by (auto simp: keys_below_def)
  then have "insert s {..<n} = {..<max n (Suc s)}" by auto
  with k show ?thesis by (simp add: keys_update)
qed

lemma keys_below_step:
  assumes "\<exists>n. keys_below n st" "exec_step nfa st = Running st'"
  shows "\<exists>n. keys_below n st'"
proof -
  from assms(1) obtain n where n: "keys_below n st" ..
  from assms(2) obtain q r s stk rs where st: "stack st = (q, r, s) # stk"
    "expand r s (rev rs) stk (visited st) = Inr (stack st', visited st')"
    "path st' = AList.update s (q, r) (path st)"
    by (rule exec_step_running)
  from expand_shape [OF st(2)] obtain new where new: "stack st' = new @ stk"
    "\<forall>f \<in> set new. snd (snd f) = Suc s" by blast
  have "fst ` set (path st') = {..<max n (Suc s)}"
    using keys_below_record [OF n st(1)] st(3) by simp
  moreover have "\<forall>f \<in> set (stack st'). snd (snd f) \<le> max n (Suc s)"
  proof
    fix f assume "f \<in> set (stack st')"
    then consider "f \<in> set new" | "f \<in> set stk" using new(1) by auto
    then show "snd (snd f) \<le> max n (Suc s)"
    proof cases
      case 1
      with new(2) show ?thesis by simp
    next
      case 2
      with n st(1) have "snd (snd f) \<le> n" by (simp add: keys_below_def)
      then show ?thesis by simp
    qed
  qed
  ultimately have "keys_below (max n (Suc s)) st'" by (simp add: keys_below_def)
  then show ?thesis ..
qed

text \<open>
  Claim C10: at every point of a call of \<^verbatim>\<open>exec\<close> the keys of the trace are contiguous.
  Before an iteration they are the numbers below some \<open>n\<close> (none before the first one);
  once the popped frame is recorded they are \<open>0..m\<close> for some \<open>m\<close>, and \<^verbatim>\<open>backtrace\<close>
  on that trace never looks up a missing key.
\<close>

theorem trace_keys_contiguous:
  assumes "exec_iter nfa k (exec_init text) = Running st"
  shows "(\<exists>n. fst ` set (path st) = {..<n}) \<and>
         (\<forall>q r s stk. stack st = (q, r, s) # stk \<longrightarrow>
            (\<exists>m. fst ` set (AList.update s (q, r) (path st)) = {..m}) \<and>
            backtrace (AList.update s (q, r) (path st)) \<noteq> Inl KeyError)"
proof -
  have "\<exists>n. keys_below n st"
  proof (rule exec_iter_invariant [where I = "\<lambda>st. \<exists>n. keys_below n st", OF _ _ assms])
    show "\<exists>n. keys_below n (exec_init text)" using keys_below_init ..
  qed (rule keys_below_step)
  then obtain n where n: "keys_below n st" ..
  then have first: "\<exists>n. fst ` set (path st) = {..<n}" by (auto simp: keys_below_def)
  have second: "(\<exists>m. fst ` set (AList.update s (q, r) (path st)) = {..m}) \<and>
            backtrace (AList.update s (q, r) (path st)) \<noteq> Inl KeyError"
    if "stack st = (q, r, s) # stk" for q r s stk
  proof -
    have "{..<max n (Suc s)} = {..max n (Suc s) - 1}" by auto
    with keys_below_record [OF n that]
    have m: "fst ` set (AList.update s (q, r) (path st)) = {..max n (Suc s) - 1}" by simp
    from backtrace_no_KeyError [OF m] m show ?thesis by blast
  qed
  from first second show ?thesis by blast
qed

theorem trace_keys_contiguous_witness:
  "exec_iter nfa_single 1 (exec_init ''a'')
     = Running \<lparr>stack = [(1, [], 1)], path = [(0, 0, ''a'')], visited = {}\<rparr>
   \<and> (\<exists>n. fst ` set [(0 :: nat, 0 :: int, ''a'')] = {..<n})
   \<and> (\<exists>m. fst ` set (AList.update 1 (1, []) [(0 :: nat, 0 :: int, ''a'')]) = {..m})
   \<and> backtrace (AList.update 1 (1, []) [(0, 0, ''a'')]) \<noteq> Inl KeyError"
proof -
  have run: "exec_iter nfa_single 1 (exec_init ''a'')
     = Running \<lparr>stack = [(1, [], 1)], path = [(0, 0, ''a'')], visited = {}\<rparr>"
    by code_simp
  from trace_keys_contiguous [OF run] run show ?thesis by simp
qed

subsection \<open>The consumed symbols\<close>

lemma map_of_update_other: "k \<noteq> s \<Longrightarrow> map_of (AList.update s v p) k = map_of p k"
  by (simp add: AList.update_conv')

lemma map_of_update_same: "map_of (AList.update s v p) s = Some v"
  by (simp add: AList.update_conv')

lemma chain_update:
  assumes "chain text p k" "k < s"
  shows "chain text (AList.update s v p) k"
proof -
  have "map_of (AList.update s v p) i = map_of p i" if "i \<le> k" for i
    using that assms(2) by (intro map_of_update_other) simp
  then show ?thesis using assms(1) unfolding chain_def
    by (metis Suc_leI le0 less_imp_le_nat)
qed

lemma frame_ok_update:
  assumes "frame_ok text p f" "snd (snd f) \<le> s"
  shows "frame_ok text (AList.update s v p) f"
proof (cases "snd (snd f)")
  case 0
  with assms(1) show ?thesis by (simp add: frame_ok_def)
next
  case (Suc s0)
  with assms(2) have lt: "s0 < s" by simp
  from assms(1) Suc obtain q0 r0 where ch: "chain text p s0"
    and v: "map_of p s0 = Some (q0, r0)" "next_remaining r0 (fst (snd f))"
    by (auto simp: frame_ok_def)
  from lt have "map_of (AList.update s v p) s0 = map_of p s0"
    by (intro map_of_update_other) simp
  with chain_update [OF ch lt] v Suc show ?thesis
    by (auto simp: frame_ok_def)
qed

lemma chain_extend:
  assumes "frame_ok text p (q, r, s)"
  shows "chain text (AList.update s (q, r) p) s"
proof (cases s)
  case 0
  with assms show ?thesis by (simp add: frame_ok_def chain_def map_of_update_same)
next
  case (Suc s0)
  let ?p = "AList.update s (q, r) p"
  from assms Suc obtain q0 r0 where ch: "chain text p s0"
    and v: "map_of p s0 = Some (q0, r0)" "next_remaining r0 r"
    by (auto simp: frame_ok_def)
  have lt: "s0 < s" using Suc by simp
  have ch': "chain text ?p s0" using ch lt by (rule chain_update)
  have v0: "map_of ?p s0 = Some (q0, r0)"
    using v(1) lt by (simp add: map_of_update_other)
  have v1: "map_of ?p (Suc s0) = Some (q, r)"
    using Suc by (simp add: map_of_update_same)
  have "\<exists>q0 r0 q r. map_of ?p i = Some (q0, r0) \<and> map_of ?p (Suc i) = Some (q, r)
         \<and> next_remaining r0 r" if "i < Suc s0" for i
  proof (cases "i = s0")
    case True
    with v0 v1 v(2) show ?thesis by blast
  next
    case False
    with that have "i < s0" by simp
    with ch' show ?thesis by (simp add: chain_def)
  qed
  with ch' show ?thesis unfolding chain_def Suc by blast
qed

lemma sorted_wrt_const:
  "\<forall>x \<in> set xs. f x = c \<Longrightarrow> sorted_wrt (\<lambda>a b. (f b :: nat) \<le> f a) xs"
  by (induction xs) auto

lemma dfs_inv_init: "dfs_inv text (exec_init text)"
  by (simp add: dfs_inv_def exec_init_def frame_ok_def)

lemma dfs_inv_step:
  assumes "dfs_inv text st" "exec_step nfa st = Running st'"
  shows "dfs_inv text st'"
proof -
  from assms(2) obtain q r s stk rs where st: "stack st = (q, r, s) # stk"
    "expand r s (rev rs) stk (visited st) = Inr (stack st', visited st')"
    "path st' = AList.update s (q, r) (path st)"
    by (rule exec_step_running)
  from expand_shape [OF st(2)] obtain new where new: "stack st' = new @ stk"
    "\<forall>f \<in> set new. snd (snd f) = Suc s \<and>
          (fst (snd f) = r \<or> (r \<noteq> [] \<and> fst (snd f) = tl r))" by blast
  from assms(1) st(1) have sorted: "sorted_wrt (\<lambda>f g. snd (snd g) \<le> snd (snd f)) stk"
    and below: "\<forall>g \<in> set stk. snd (snd g) \<le> s"
    and top: "frame_ok text (path st) (q, r, s)"
    and rest: "\<forall>f \<in> set stk. frame_ok text (path st) f"
    by (auto simp: dfs_inv_def)
  have ch: "chain text (path st') s"
    using chain_extend [OF top] st(3) by simp
  have cur: "map_of (path st') s = Some (q, r)"
    using st(3) by (simp add: map_of_update_same)
  have "sorted_wrt (\<lambda>f g. snd (snd g) \<le> snd (snd f)) new"
    using new(2) by (intro sorted_wrt_const [where c = "Suc s"]) simp
  moreover have "\<forall>f \<in> set new. \<forall>g \<in> set stk. snd (snd g) \<le> snd (snd f)"
    using new(2) below by fastforce
  ultimately have s': "sorted_wrt (\<lambda>f g. snd (snd g) \<le> snd (snd f)) (stack st')"
    using sorted new(1) by (simp add: sorted_wrt_append)
  have "frame_ok text (path st') f" if "f \<in> set (stack st')" for f
  proof -
    from that consider "f \<in> set new" | "f \<in> set stk" using new(1) by auto
    then show ?thesis
    proof cases
      case 1
      with new(2) have "snd (snd f) = Suc s" "next_remaining r (fst (snd f))"
        by (auto simp: next_remaining_def)
      with ch cur show ?thesis by (auto simp: frame_ok_def)
    next
      case 2
      with rest below have "frame_ok text (path st) f" "snd (snd f) \<le> s" by auto
      then show ?thesis unfolding st(3) by (rule frame_ok_update)
    qed
  qed
  with s' show ?thesis by (simp add: dfs_inv_def)
qed

lemma backtrace_loop_links:
  assumes "backtrace_loop p j sts cons = Inr res"
  shows "\<forall>i<j. \<exists>q0 r0 q r. map_of p i = Some (q0, r0) \<and> map_of p (Suc i) = Some (q, r)
            \<and> (r = r0 \<or> r0 \<noteq> [])"
  using assms
proof (induction j arbitrary: sts cons)
  case 0
  then show ?case by simp
next
  case (Suc j)
  from Suc.prems obtain q r q0 r0 where v: "map_of p (Suc j) = Some (q, r)"
    "map_of p j = Some (q0, r0)"
    by (auto split: option.splits)
  from Suc.prems v have ok: "r = r0 \<or> r0 \<noteq> []"
    by (auto split: if_splits list.splits)
  from Suc.prems v obtain c where "backtrace_loop p j (sts @ [q]) (cons @ [c]) = Inr res"
    by (auto split: if_splits list.splits)
  from Suc.IH [OF this] have ih: "\<forall>i<j. \<exists>q0 r0 q r. map_of p i = Some (q0, r0) \<and>
      map_of p (Suc i) = Some (q, r) \<and> (r = r0 \<or> r0 \<noteq> [])" .
  show ?case
  proof (intro allI impI)
    fix i assume "i < Suc j"
    then consider "i = j" | "i < j" by linarith
    then show "\<exists>q0 r0 q r. map_of p i = Some (q0, r0) \<and> map_of p (Suc i) = Some (q, r)
            \<and> (r = r0 \<or> r0 \<noteq> [])"
    proof cases
      case 1
      with v ok show ?thesis by blast
    next
      case 2
      with ih show ?thesis by blast
    qed
  qed
qed

lemma empty_remaining_propagates:
  assumes links: "\<forall>i<j. \<exists>q0 r0 q r. map_of p i = Some (q0, r0) \<and> map_of p (Suc i) = Some (q, r)
            \<and> (r = r0 \<or> r0 \<noteq> [])"
    and start: "map_of p s = Some (q, [])"
  shows "s + d \<le> j \<Longrightarrow> \<exists>q'. map_of p (s + d) = Some (q', [])"
proof (induction d)
  case 0
  with start show ?case by simp
next
  case (Suc d)
  then obtain q' where prev: "map_of p (s + d) = Some (q', [])" by auto
  from Suc.prems have "s + d < j" by simp
  with links obtain q0 r0 q1 r1 where "map_of p (s + d) = Some (q0, r0)"
    "map_of p (Suc (s + d)) = Some (q1, r1)" "r1 = r0 \<or> r0 \<noteq> []" by blast
  with prev show ?case by auto
qed

lemma backtrace_loop_stale:
  assumes "\<forall>e \<le> d. \<exists>q'. map_of p (s + e) = Some (q', [])"
    and "backtrace_loop p (s + d) sts cons = Inr res"
  shows "\<exists>sts1 cons1. backtrace_loop p s sts1 cons1 = Inr res
            \<and> concat (rev cons1) = concat (rev cons)"
  using assms
proof (induction d arbitrary: sts cons)
  case 0
  then show ?case by auto
next
  case (Suc d)
  from Suc.prems(1) obtain q1 q0 where v: "map_of p (Suc (s + d)) = Some (q1, [])"
    "map_of p (s + d) = Some (q0, [])"
    by (metis add_Suc_right le_Suc_eq order_refl)
  with Suc.prems(2) have run: "backtrace_loop p (s + d) (sts @ [q1]) (cons @ [[]]) = Inr res"
    by simp
  from Suc.prems(1) have "\<forall>e \<le> d. \<exists>q'. map_of p (s + e) = Some (q', [])" by simp
  from Suc.IH [OF this run] show ?case by simp
qed

lemma backtrace_loop_chain:
  assumes "chain text p k" "map_of p k = Some (q, r)"
    and "backtrace_loop p k sts cons = Inr (sts', cons')"
  shows "\<exists>w. text = w @ r \<and> concat (rev cons') = w @ concat (rev cons)"
  using assms
proof (induction k arbitrary: q r sts cons)
  case 0
  then show ?case by (auto simp: chain_def)
next
  case (Suc k)
  from Suc.prems(1) obtain q0 r0 q1 r1 where v: "map_of p k = Some (q0, r0)"
    "map_of p (Suc k) = Some (q1, r1)" "next_remaining r0 r1"
    unfolding chain_def by blast
  with Suc.prems(2) have [simp]: "q1 = q" "r1 = r" by simp_all
  from Suc.prems(1) have ch: "chain text p k" by (simp add: chain_def)
  show ?case
  proof (cases "r = r0")
    case True
    with Suc.prems(3) v have "backtrace_loop p k (sts @ [q]) (cons @ [[]]) = Inr (sts', cons')"
      by simp
    from Suc.IH [OF ch v(1) this] True show ?thesis by simp
  next
    case False
    with v(3) obtain c where r0: "r0 = c # r"
      by (cases r0) (auto simp: next_remaining_def)
    with Suc.prems(3) v False
    have "backtrace_loop p k (sts @ [q]) (cons @ [[c]]) = Inr (sts', cons')"
      by simp
    from Suc.IH [OF ch v(1) this] obtain w where
      "text = w @ r0" "concat (rev cons') = w @ concat (rev (cons @ [[c]]))" by blast
    then have "text = (w @ [c]) @ r \<and> concat (rev cons') = (w @ [c]) @ concat (rev cons)"
      by (simp add: r0)
    then show ?thesis by blast
  qed
qed

lemma backtrace_consumes:
  assumes "chain text p s" "map_of p s = Some (q, [])" "backtrace p = Inr pth"
  shows "concat (consumes pth) = text"
proof -
  from assms(3) obtain sts cons where
    bl: "backtrace_loop p (Max (set (map fst p))) [] [] = Inr (sts, cons)"
    and pth: "pth = \<lparr>states = rev (sts @ [0]), consumes = rev cons\<rparr>"
    by (auto simp: backtrace_def split: if_splits sum.splits)
  from assms(2) have "s \<in> fst ` set p"
    by (metis map_of_eq_None_iff option.distinct(1))
  then have "s \<le> Max (set (map fst p))" by simp
  then obtain d where d: "Max (set (map fst p)) = s + d"
    using le_Suc_ex by blast
  from backtrace_loop_links [OF bl]
  have "\<forall>e \<le> d. \<exists>q'. map_of p (s + e) = Some (q', [])"
    using empty_remaining_propagates [OF _ assms(2), of "s + d"] unfolding d by simp
  from backtrace_loop_stale [OF this bl [unfolded d]] obtain sts1 cons1 where
    run: "backtrace_loop p s sts1 cons1 = Inr (sts, cons)" and c1: "concat (rev cons1) = []"
    by auto
  from backtrace_loop_chain [OF assms(1,2) run] c1 have "concat (rev cons) = text" by simp
  with pth show ?thesis by simp
qed

text \<open>
  Claim C2: if \<^verbatim>\<open>exec\<close> returns a path, the entries of its consumes list, concatenated in
  order (an empty entry contributes nothing), are the input string.
\<close>

theorem exec_consumes_input:
  assumes "exec nfa text = Inr (Some p)"
  shows "concat (consumes p) = text"
proof -
  have "\<forall>p. exec_loop nfa (exec_init text) = Inr (Some p) \<longrightarrow> concat (consumes p) = text"
  proof (rule exec_loop_invariant [where I = "dfs_inv text"])
    show "dfs_inv text (exec_init text)" by (rule dfs_inv_init)
  next
    fix st st' assume "dfs_inv text st" "exec_step nfa st = Running st'"
    then show "dfs_inv text st'" by (rule dfs_inv_step)
  next
    fix st r assume inv: "dfs_inv text st" and stop: "exec_step nfa st = Done r"
    show "\<forall>p. r = Inr (Some p) \<longrightarrow> concat (consumes p) = text"
    proof (intro allI impI)
      fix p assume "r = Inr (Some p)"
      with stop have "exec_step nfa st = Done (Inr (Some p))" by simp
      then obtain q s stk where top: "stack st = (q, [], s) # stk"
        and bt: "backtrace (AList.update s (q, []) (path st)) = Inr p"
        by (rule exec_step_accept)
      from inv top have "frame_ok text (path st) (q, [], s)" by (simp add: dfs_inv_def)
      then have "chain text (AList.update s (q, []) (path st)) s" by (rule chain_extend)
      moreover have "map_of (AList.update s (q, []) (path st)) s = Some (q, [])"
        by (rule map_of_update_same)
      ultimately show "concat (consumes p) = text" using bt by (rule backtrace_consumes)
    qed
  qed
  with assms show ?thesis by (simp add: exec_def)
qed

theorem exec_consumes_input_witness:
  "exec nfa_dead_branch ''a'' = Inr (Some \<lparr>states = [0, 3, 2], consumes = [''a'', '''']\<rparr>)
   \<and> concat (consumes \<lparr>states = [0, 3, 2], consumes = [''a'', '''']\<rparr>) = ''a''"
proof -
  have run: "exec nfa_dead_branch ''a''
      = Inr (Some \<lparr>states = [0, 3, 2], consumes = [''a'', '''']\<rparr>)"
    by (rule exec_by_iter [where k = 4]) code_simp
  from exec_consumes_input [OF run] run show ?thesis by simp
qed

subsection \<open>Pushes and the bound on the iterations\<close>

lemma expand_Cons_single:
  "expand r s (rule # rest) stk vis =
     (case expand r s [rule] stk vis of
        Inl e \<Rightarrow> Inl e
      | Inr (stk1, vis1) \<Rightarrow> expand r s rest stk1 vis1)"
  by (simp split: sum.splits)

lemma expand_single_cases:
  assumes "expand r s [rule] stk vis = Inr (stk1, vis1)"
  obtains (skip) "stk1 = stk" "vis1 = vis"
  | (eps) "rule_type rule = Member EPSILON" "(rule_dst rule, r) \<notin> vis"
      "stk1 = (rule_dst rule, r, s + 1) # stk" "vis1 = insert (rule_dst rule, r) vis"
  | (chr) "rule_type rule \<noteq> Member EPSILON" "r \<noteq> []" "Rule_match rule [hd r] = Inr True"
      "stk1 = (rule_dst rule, tl r, s + 1) # stk" "vis1 = vis"
  using assms by (cases rule: expand_Cons_cases) simp_all

lemma pushes_Cons_cases:
  obtains (raise) "pushes r s (rule # rest) stk vis = []"
  | (skip) "pushes r s (rule # rest) stk vis = pushes r s rest stk vis"
  | (eps) "rule_type rule = Member EPSILON" "(rule_dst rule, r) \<notin> vis"
      "pushes r s (rule # rest) stk vis
         = (rule, (rule_dst rule, r, s + 1))
           # pushes r s rest ((rule_dst rule, r, s + 1) # stk) (insert (rule_dst rule, r) vis)"
  | (chr) "rule_type rule \<noteq> Member EPSILON" "r \<noteq> []"
      "pushes r s (rule # rest) stk vis
         = (rule, (rule_dst rule, tl r, s + 1))
           # pushes r s rest ((rule_dst rule, tl r, s + 1) # stk) vis"
proof (cases "expand r s [rule] stk vis")
  case (Inl e)
  then have "pushes r s (rule # rest) stk vis = []" by simp
  then show ?thesis by (rule raise)
next
  case (Inr res)
  obtain stk1 vis1 where res: "res = (stk1, vis1)" by (cases res)
  with Inr have one: "expand r s [rule] stk vis = Inr (stk1, vis1)" by simp
  then have unfold: "pushes r s (rule # rest) stk vis
      = map (Pair rule) (take (length stk1 - length stk) stk1) @ pushes r s rest stk1 vis1"
    by simp
  from one show ?thesis
  proof (cases rule: expand_single_cases)
    case skip
    with unfold have "pushes r s (rule # rest) stk vis = pushes r s rest stk vis" by simp
    then show ?thesis by (rule that(2))
  next
    case eps
    with unfold have "pushes r s (rule # rest) stk vis
         = (rule, (rule_dst rule, r, s + 1))
           # pushes r s rest ((rule_dst rule, r, s + 1) # stk) (insert (rule_dst rule, r) vis)"
      by simp
    with eps(1,2) show ?thesis by (rule that(3))
  next
    case chr
    with unfold have "pushes r s (rule # rest) stk vis
         = (rule, (rule_dst rule, tl r, s + 1))
           # pushes r s rest ((rule_dst rule, tl r, s + 1) # stk) vis"
      by simp
    with chr(1,2) show ?thesis by (rule that(4))
  qed
qed

declare pushes.simps(2) [simp del]

lemma pushes_props:
  "p \<in> set (pushes r s rl stk vis) \<Longrightarrow>
     fst p \<in> set rl \<and> fst (snd p) = rule_dst (fst p) \<and> snd (snd (snd p)) = s + 1 \<and>
     (if rule_type (fst p) = Member EPSILON
      then fst (snd (snd p)) = r \<and> (rule_dst (fst p), r) \<notin> vis
      else r \<noteq> [] \<and> fst (snd (snd p)) = tl r)"
proof (induction rl arbitrary: stk vis)
  case Nil
  then show ?case by simp
next
  case (Cons rule rest)
  show ?case
  proof (cases r s rule rest stk vis rule: pushes_Cons_cases)
    case raise
    with Cons.prems show ?thesis by simp
  next
    case skip
    with Cons.prems have "p \<in> set (pushes r s rest stk vis)" by simp
    from Cons.IH [OF this] show ?thesis by auto
  next
    case eps
    with Cons.prems consider "p = (rule, (rule_dst rule, r, s + 1))"
      | "p \<in> set (pushes r s rest ((rule_dst rule, r, s + 1) # stk) (insert (rule_dst rule, r) vis))"
      by auto
    then show ?thesis
    proof cases
      case 1
      with eps(1,2) show ?thesis by simp
    next
      case 2
      from Cons.IH [OF this] show ?thesis by auto
    qed
  next
    case chr
    with Cons.prems consider "p = (rule, (rule_dst rule, tl r, s + 1))"
      | "p \<in> set (pushes r s rest ((rule_dst rule, tl r, s + 1) # stk) vis)"
      by auto
    then show ?thesis
    proof cases
      case 1
      with chr(1,2) show ?thesis by simp
    next
      case 2
      from Cons.IH [OF this] show ?thesis by auto
    qed
  qed
qed

lemma pushes_eps_distinct:
  "distinct (map (\<lambda>p. fst (snd p))
     (filter (\<lambda>p. rule_type (fst p) = Member EPSILON) (pushes r s rl stk vis)))"
proof (induction rl arbitrary: stk vis)
  case Nil
  then show ?case by simp
next
  case (Cons rule rest)
  show ?case
  proof (cases r s rule rest stk vis rule: pushes_Cons_cases)
    case raise
    then show ?thesis by simp
  next
    case skip
    with Cons.IH show ?thesis by simp
  next
    case eps
    let ?rest = "pushes r s rest ((rule_dst rule, r, s + 1) # stk) (insert (rule_dst rule, r) vis)"
    have "fst (snd p) \<noteq> rule_dst rule"
      if "p \<in> set ?rest" "rule_type (fst p) = Member EPSILON" for p
      using pushes_props [OF that(1)] that(2) by auto
    then have ne: "\<And>p. p \<in> set ?rest \<Longrightarrow> rule_type (fst p) = Member EPSILON \<Longrightarrow>
        fst (snd p) \<noteq> rule_dst rule" .
    have "rule_dst rule \<notin> set (map (\<lambda>p. fst (snd p))
        (filter (\<lambda>p. rule_type (fst p) = Member EPSILON) ?rest))"
    proof
      assume "rule_dst rule \<in> set (map (\<lambda>p. fst (snd p))
        (filter (\<lambda>p. rule_type (fst p) = Member EPSILON) ?rest))"
      then obtain p where "p \<in> set ?rest" "rule_type (fst p) = Member EPSILON"
        "fst (snd p) = rule_dst rule" by auto
      with ne show False by blast
    qed
    with Cons.IH [of "(rule_dst rule, r, s + 1) # stk" "insert (rule_dst rule, r) vis"] eps
    show ?thesis by simp
  next
    case chr
    with Cons.IH show ?thesis by simp
  qed
qed

lemma pushes_expand:
  "expand r s rl stk vis = Inr (stk', vis') \<Longrightarrow>
     stk' = rev (map snd (pushes r s rl stk vis)) @ stk \<and> vis \<subseteq> vis' \<and>
     (\<forall>p \<in> set (pushes r s rl stk vis).
        rule_type (fst p) = Member EPSILON \<longrightarrow> (fst (snd p), r) \<in> vis')"
proof (induction rl arbitrary: stk vis)
  case Nil
  then show ?case by simp
next
  case (Cons rule rest)
  from Cons.prems show ?case
  proof (cases rule: expand_Cons_cases)
    case skip
    then have one: "expand r s [rule] stk vis = Inr (stk, vis)"
      using Cons.prems by (auto split: if_splits sum.splits)
    then have "pushes r s (rule # rest) stk vis = pushes r s rest stk vis"
      by (simp add: pushes.simps(2))
    with Cons.IH [OF skip(1)] show ?thesis by simp
  next
    case eps
    let ?f = "(rule_dst rule, r, s + 1)"
    from eps(1,2) have "expand r s [rule] stk vis = Inr (?f # stk, insert (rule_dst rule, r) vis)"
      by simp
    then have unfold: "pushes r s (rule # rest) stk vis
        = (rule, ?f) # pushes r s rest (?f # stk) (insert (rule_dst rule, r) vis)"
      by (simp add: pushes.simps(2))
    from Cons.IH [OF eps(3)] show ?thesis unfolding unfold by auto
  next
    case chr
    let ?f = "(rule_dst rule, tl r, s + 1)"
    from chr(1,2,3) have "rule_type rule \<noteq> Unset"
      by (auto simp: Rule_match_def)
    with chr(1,2,3) have "expand r s [rule] stk vis = Inr (?f # stk, vis)"
      by simp
    then have unfold: "pushes r s (rule # rest) stk vis
        = (rule, ?f) # pushes r s rest (?f # stk) vis"
      by (simp add: pushes.simps(2))
    from Cons.IH [OF chr(4)] chr(1) show ?thesis unfolding unfold by auto
  qed
qed

lemma pushed_by_cases:
  obtains (none) "pushed_by nfa st = []"
  | (some) q r s stk rs where "stack st = (q, r, s) # stk"
      "pushed_by nfa st = pushes r s (rev rs) stk (visited st)"
proof (cases "pushed_by nfa st = []")
  case True
  then show ?thesis by (rule none)
next
  case False
  then obtain q r s stk where stk: "stack st = (q, r, s) # stk"
    by (cases "stack st") (auto simp: pushed_by_def)
  with False obtain rs where "pushed_by nfa st = pushes r s (rev rs) stk (visited st)"
    by (auto simp: pushed_by_def split: sum.splits if_splits)
  with stk show ?thesis by (rule some)
qed

lemma pushed_by_running:
  assumes "exec_step nfa st = Running st'"
  obtains q r s stk rs where "stack st = (q, r, s) # stk"
    "expand r s (rev rs) stk (visited st) = Inr (stack st', visited st')"
    "pushed_by nfa st = pushes r s (rev rs) stk (visited st)"
proof -
  from assms obtain q r s stk rs where st: "stack st = (q, r, s) # stk"
    "py_index (rules nfa) q = Inr rs"
    "expand r s (rev rs) stk (visited st) = Inr (stack st', visited st')"
    by (rule exec_step_running)
  from assms st(1,2) have "pushed_by nfa st = pushes r s (rev rs) stk (visited st)"
    by (auto simp: exec_step_def pushed_by_def Let_def split: sum.splits if_splits)
  with st(1,3) that show ?thesis by blast
qed

lemma pushed_by_stack:
  assumes "exec_step nfa st = Running st'"
  shows "stack st' = rev (map snd (pushed_by nfa st)) @ tl (stack st)"
    and "visited st \<subseteq> visited st'"
    and "set (eps_pushed nfa st) \<subseteq> visited st'"
proof -
  from assms obtain q r s stk rs where st: "stack st = (q, r, s) # stk"
    "expand r s (rev rs) stk (visited st) = Inr (stack st', visited st')"
    "pushed_by nfa st = pushes r s (rev rs) stk (visited st)"
    by (rule pushed_by_running)
  from pushes_expand [OF st(2)] have e: "stack st' = rev (map snd (pushed_by nfa st)) @ stk"
    "visited st \<subseteq> visited st'"
    "\<forall>p \<in> set (pushed_by nfa st).
        rule_type (fst p) = Member EPSILON \<longrightarrow> (fst (snd p), r) \<in> visited st'"
    unfolding st(3) by simp_all
  from e(1) st(1) show "stack st' = rev (map snd (pushed_by nfa st)) @ tl (stack st)" by simp
  from e(2) show "visited st \<subseteq> visited st'" .
  show "set (eps_pushed nfa st) \<subseteq> visited st'"
  proof
    fix c assume "c \<in> set (eps_pushed nfa st)"
    then obtain p where p: "p \<in> set (pushed_by nfa st)" "rule_type (fst p) = Member EPSILON"
      "c = (fst (snd p), fst (snd (snd p)))"
      by (auto simp: eps_pushed_def)
    from p(1) have "p \<in> set (pushes r s (rev rs) stk (visited st))" by (simp only: st(3))
    from pushes_props [OF this] p(2) have "fst (snd (snd p)) = r" by simp
    with e(3) p show "c \<in> visited st'" by auto
  qed
qed

lemma eps_pushed_unvisited: "set (eps_pushed nfa st) \<inter> visited st = {}"
proof (cases nfa st rule: pushed_by_cases)
  case none
  then show ?thesis by (simp add: eps_pushed_def)
next
  case (some q r s stk rs)
  have "c \<notin> visited st" if "c \<in> set (eps_pushed nfa st)" for c
  proof -
    from that obtain p where p: "p \<in> set (pushed_by nfa st)" "rule_type (fst p) = Member EPSILON"
      "c = (fst (snd p), fst (snd (snd p)))"
      by (auto simp: eps_pushed_def)
    from p(1) have "p \<in> set (pushes r s (rev rs) stk (visited st))" by (simp only: some(2))
    from pushes_props [OF this] p(2,3) show ?thesis by simp
  qed
  then show ?thesis by blast
qed

lemma eps_pushed_distinct: "distinct (eps_pushed nfa st)"
proof (cases nfa st rule: pushed_by_cases)
  case none
  then show ?thesis by (simp add: eps_pushed_def)
next
  case (some q r s stk rs)
  let ?xs = "filter (\<lambda>p. rule_type (fst p) = Member EPSILON) (pushed_by nfa st)"
  have "distinct (map (\<lambda>p. fst (snd p)) ?xs)"
    unfolding some(2) by (rule pushes_eps_distinct)
  then have "distinct ?xs" "inj_on (\<lambda>p. fst (snd p)) (set ?xs)"
    by (simp_all add: distinct_map)
  moreover from this(2) have "inj_on (\<lambda>p. (fst (snd p), fst (snd (snd p)))) (set ?xs)"
    by (auto simp: inj_on_def)
  ultimately show ?thesis by (simp add: eps_pushed_def distinct_map)
qed

lemma pushed_by_shorter:
  assumes "p \<in> set (pushed_by nfa st)" "rule_type (fst p) \<noteq> Member EPSILON"
  shows "length (fst (snd (snd p))) < length (fst (snd (hd (stack st))))"
proof (cases nfa st rule: pushed_by_cases)
  case none
  with assms(1) show ?thesis by simp
next
  case (some q r s stk rs)
  from assms(1) have "p \<in> set (pushes r s (rev rs) stk (visited st))" by (simp only: some(2))
  from pushes_props [OF this] assms(2) have "r \<noteq> []" "fst (snd (snd p)) = tl r" by simp_all
  then show ?thesis by (cases r) (simp_all add: some(1))
qed

lemma exec_iter_add:
  "exec_iter nfa (i + d) st =
     (case exec_iter nfa i st of Done r \<Rightarrow> Done r | Running st1 \<Rightarrow> exec_iter nfa d st1)"
  by (induction i arbitrary: st) (simp_all split: outcome.splits)

lemma exec_iter_reaches:
  "\<exists>k \<le> Suc (search_measure nfa st). exec_iter nfa k st = Done (exec_loop nfa st)"
proof (induction "search_measure nfa st" arbitrary: st rule: less_induct)
  case less
  show ?case
  proof (cases "exec_step nfa st")
    case (Done r)
    then have "exec_iter nfa (Suc 0) st = Done (exec_loop nfa st)"
      by (simp add: exec_loop.simps [of nfa st])
    then show ?thesis by (intro exI [of _ "Suc 0"]) simp
  next
    case (Running st')
    from exec_step_decreases [OF Running] have lt: "search_measure nfa st' < search_measure nfa st" .
    from less.hyps [OF lt] obtain k where k: "k \<le> Suc (search_measure nfa st')"
      "exec_iter nfa k st' = Done (exec_loop nfa st')" by blast
    from k(2) Running have "exec_iter nfa (Suc k) st = Done (exec_loop nfa st)"
      by (simp add: exec_loop.simps [of nfa st])
    moreover from k(1) lt have "Suc k \<le> Suc (search_measure nfa st)" by simp
    ultimately show ?thesis by blast
  qed
qed

lemma weight_mono: "length r \<le> length r' \<Longrightarrow> weight nfa r \<le> weight nfa r'"
  by (simp add: weight_def power_increasing)

lemma search_measure_init:
  "Suc (search_measure nfa (exec_init text)) \<le> exec_bound nfa text"
proof -
  let ?D = "rule_dst ` set (concat (rules nfa))"
  let ?S = "set (suffixes text)"
  have U: "eps_universe nfa [(0, text, 0)] = ?D \<times> ?S"
    by (simp add: eps_universe_def)
  have cD: "card ?D \<le> fanout nfa"
    unfolding fanout_def by (rule order_trans [OF card_image_le card_length]) simp
  have cS: "card ?S \<le> Suc (length text)"
    using card_length [of "suffixes text"] by (simp add: length_suffixes)
  have "card (?D \<times> ?S) = card ?D * card ?S" by (rule card_cartesian_product)
  also have "\<dots> \<le> fanout nfa * Suc (length text)" using cD cS by (rule mult_le_mono)
  finally have card: "card (?D \<times> ?S) \<le> fanout nfa * Suc (length text)" .
  have "(\<Sum>c \<in> ?D \<times> ?S. Suc (weight nfa (snd c))) \<le> card (?D \<times> ?S) * Suc (weight nfa text)"
  proof (rule order_trans [OF sum_bounded_above])
    fix c assume "c \<in> ?D \<times> ?S"
    then have "suffix (snd c) text" by (auto simp: in_set_suffixes)
    then have "length (snd c) \<le> length text" by (rule suffix_length_le)
    then show "Suc (weight nfa (snd c)) \<le> Suc (weight nfa text)"
      by (simp add: weight_mono)
  qed simp
  also have "\<dots> \<le> fanout nfa * Suc (length text) * Suc (weight nfa text)"
    using card by (rule mult_le_mono1)
  finally have "(\<Sum>c \<in> eps_universe nfa [(0, text, 0)]. Suc (weight nfa (snd c)))
      \<le> fanout nfa * Suc (length text) * Suc (weight nfa text)"
    by (simp only: U)
  then show ?thesis
    by (simp add: search_measure_def potential_def exec_bound_def exec_init_def)
qed


lemma visited_mono_iter:
  "exec_iter nfa k st = Running st' \<Longrightarrow> visited st \<subseteq> visited st'"
proof (rule exec_iter_invariant [where I = "\<lambda>x. visited st \<subseteq> visited x"])
  fix x x' assume "visited st \<subseteq> visited x" "exec_step nfa x = Running x'"
  moreover from this(2) have "visited x \<subseteq> visited x'" by (rule pushed_by_stack)
  ultimately show "visited st \<subseteq> visited x'" by simp
qed simp_all

lemma eps_pushed_disjoint:
  assumes "i < j" "exec_iter nfa i st = Running sti" "exec_iter nfa j st = Running stj"
  shows "set (eps_pushed nfa sti) \<inter> set (eps_pushed nfa stj) = {}"
proof -
  define d where "d = j - Suc i"
  have j: "j = i + Suc d" using assms(1) by (simp add: d_def)
  have "exec_iter nfa (i + Suc d) st = exec_iter nfa (Suc d) sti"
    by (simp only: exec_iter_add [of nfa i "Suc d" st] assms(2) outcome.case)
  with assms(3) have run: "exec_iter nfa (Suc d) sti = Running stj"
    by (simp only: j)
  obtain sti' where sti': "exec_step nfa sti = Running sti'" "exec_iter nfa d sti' = Running stj"
  proof (cases "exec_step nfa sti")
    case (Done r)
    with run show ?thesis by simp
  next
    case (Running x)
    with run that show ?thesis by simp
  qed
  have "set (eps_pushed nfa sti) \<subseteq> visited stj"
    using pushed_by_stack(3) [OF sti'(1)] visited_mono_iter [OF sti'(2)] by blast
  with eps_pushed_unvisited [of nfa stj] show ?thesis by blast
qed

subsection \<open>Acceptance and rejection\<close>

text \<open>
  The search decides acceptance correctly. If \<^verbatim>\<open>exec\<close> returns \<^verbatim>\<open>None\<close>, the explored set
  is closed under successors and holds the start configuration, so there is no accepting
  run; if it returns a path, the popped frame was reachable and accepting, so there is one.
\<close>

lemma accepting_run_Nil: "accepting_run nfa q w [] \<longleftrightarrow> accepting nfa (q, w)"
  by (simp add: accepting_def)

lemma accepting_run_Cons:
  "accepting_run nfa q w (rule # run) \<longleftrightarrow>
     (\<exists>rs. py_index (rules nfa) q = Inr rs \<and> rule \<in> set rs \<and>
        (if rule_type rule = Member EPSILON then accepting_run nfa (rule_dst rule) w run
         else w \<noteq> [] \<and> Rule_match rule [hd w] = Inr True
              \<and> accepting_run nfa (rule_dst rule) (tl w) run))"
  by (cases "py_index (rules nfa) q") simp_all

lemma accepting_run_successor:
  assumes "accepting_run nfa q w (rule # run)"
  obtains c' where "successor nfa (q, w) c'" "accepting_run nfa (fst c') (snd c') run"
proof -
  from assms obtain rs where rs: "py_index (rules nfa) q = Inr rs" "rule \<in> set rs"
    and nxt: "if rule_type rule = Member EPSILON then accepting_run nfa (rule_dst rule) w run
         else w \<noteq> [] \<and> Rule_match rule [hd w] = Inr True
              \<and> accepting_run nfa (rule_dst rule) (tl w) run"
    unfolding accepting_run_Cons by blast
  show ?thesis
  proof (cases "rule_type rule = Member EPSILON")
    case True
    with rs have "successor nfa (q, w) (rule_dst rule, w)"
      unfolding successor_def by (intro exI [of _ rs] exI [of _ rule]) simp
    moreover from nxt True have "accepting_run nfa (rule_dst rule) w run" by simp
    ultimately show ?thesis using that [of "(rule_dst rule, w)"] by simp
  next
    case False
    with nxt have m: "w \<noteq> []" "Rule_match rule [hd w] = Inr True"
      and r: "accepting_run nfa (rule_dst rule) (tl w) run" by simp_all
    from rs False m have "successor nfa (q, w) (rule_dst rule, tl w)"
      unfolding successor_def by (intro exI [of _ rs] exI [of _ rule]) simp
    with r show ?thesis using that [of "(rule_dst rule, tl w)"] by simp
  qed
qed

lemma closed_no_accepting_run:
  assumes "\<forall>c \<in> P. \<not> accepting nfa c \<and> (\<forall>c'. successor nfa c c' \<longrightarrow> c' \<in> P)"
  shows "(q, w) \<in> P \<Longrightarrow> \<not> accepting_run nfa q w run"
proof (induction run arbitrary: q w)
  case Nil
  with assms have "\<not> accepting nfa (q, w)" by blast
  then show ?case by (simp only: accepting_run_Nil not_False_eq_True)
next
  case (Cons rule run)
  show ?case
  proof
    assume "accepting_run nfa q w (rule # run)"
    then obtain c' where c': "successor nfa (q, w) c'" "accepting_run nfa (fst c') (snd c') run"
      by (rule accepting_run_successor)
    from assms Cons.prems c'(1) have "c' \<in> P" by blast
    then have "(fst c', snd c') \<in> P" by simp
    from Cons.IH [OF this] c'(2) show False by simp
  qed
qed

lemma expand_covers:
  "expand r s rl stk vis = Inr (stk', vis') \<Longrightarrow>
     configs stk \<subseteq> configs stk' \<and> vis \<subseteq> vis' \<and> vis' \<subseteq> vis \<union> configs stk' \<and>
     (\<forall>rule \<in> set rl.
        if rule_type rule = Member EPSILON then (rule_dst rule, r) \<in> vis'
        else r \<noteq> [] \<and> Rule_match rule [hd r] = Inr True \<longrightarrow>
             (rule_dst rule, tl r) \<in> configs stk')"
proof (induction rl arbitrary: stk vis)
  case Nil
  then show ?case by simp
next
  case (Cons rule rest)
  from Cons.prems show ?case
  proof (cases rule: expand_Cons_cases)
    case skip
    from Cons.IH [OF skip(1)] have ih: "configs stk \<subseteq> configs stk'" "vis \<subseteq> vis'"
      "vis' \<subseteq> vis \<union> configs stk'"
      "\<forall>rule \<in> set rest.
        if rule_type rule = Member EPSILON then (rule_dst rule, r) \<in> vis'
        else r \<noteq> [] \<and> Rule_match rule [hd r] = Inr True \<longrightarrow>
             (rule_dst rule, tl r) \<in> configs stk'"
      by simp_all
    have "if rule_type rule = Member EPSILON then (rule_dst rule, r) \<in> vis'
        else r \<noteq> [] \<and> Rule_match rule [hd r] = Inr True \<longrightarrow>
             (rule_dst rule, tl r) \<in> configs stk'"
      using skip(2,3) ih(2) by auto
    with ih show ?thesis by simp
  next
    case eps
    let ?c = "(rule_dst rule, r)"
    from Cons.IH [OF eps(3)] have ih:
      "configs ((rule_dst rule, r, s + 1) # stk) \<subseteq> configs stk'" "insert ?c vis \<subseteq> vis'"
      "vis' \<subseteq> insert ?c vis \<union> configs stk'"
      "\<forall>rule \<in> set rest.
        if rule_type rule = Member EPSILON then (rule_dst rule, r) \<in> vis'
        else r \<noteq> [] \<and> Rule_match rule [hd r] = Inr True \<longrightarrow>
             (rule_dst rule, tl r) \<in> configs stk'"
      by simp_all
    from ih(1) have in_stk: "?c \<in> configs stk'" and sub: "configs stk \<subseteq> configs stk'"
      by (auto simp: configs_def)
    from ih(3) in_stk have "vis' \<subseteq> vis \<union> configs stk'" by blast
    moreover from ih(2) have "vis \<subseteq> vis'" "?c \<in> vis'" by auto
    ultimately show ?thesis using sub ih(4) eps(1) by simp
  next
    case chr
    let ?c = "(rule_dst rule, tl r)"
    from Cons.IH [OF chr(4)] have ih:
      "configs ((rule_dst rule, tl r, s + 1) # stk) \<subseteq> configs stk'" "vis \<subseteq> vis'"
      "vis' \<subseteq> vis \<union> configs stk'"
      "\<forall>rule \<in> set rest.
        if rule_type rule = Member EPSILON then (rule_dst rule, r) \<in> vis'
        else r \<noteq> [] \<and> Rule_match rule [hd r] = Inr True \<longrightarrow>
             (rule_dst rule, tl r) \<in> configs stk'"
      by simp_all
    from ih(1) have in_stk: "?c \<in> configs stk'" and sub: "configs stk \<subseteq> configs stk'"
      by (auto simp: configs_def)
    then show ?thesis using ih(2,3,4) chr(1) by simp
  qed
qed

lemma successor_cases:
  assumes "successor nfa (q, r) c'" "py_index (rules nfa) q = Inr rs"
  obtains (eps) rule where "rule \<in> set rs" "rule_type rule = Member EPSILON" "c' = (rule_dst rule, r)"
  | (chr) rule where "rule \<in> set rs" "rule_type rule \<noteq> Member EPSILON" "r \<noteq> []"
      "Rule_match rule [hd r] = Inr True" "c' = (rule_dst rule, tl r)"
proof -
  from assms(1) obtain rs' rule where r: "py_index (rules nfa) q = Inr rs'" "rule \<in> set rs'"
    "fst c' = rule_dst rule"
    and nxt: "if rule_type rule = Member EPSILON then snd c' = r
         else r \<noteq> [] \<and> Rule_match rule [hd r] = Inr True \<and> snd c' = tl r"
    unfolding successor_def fst_conv snd_conv by blast
  from r(1) assms(2) have [simp]: "rs' = rs" by simp
  show ?thesis
  proof (cases "rule_type rule = Member EPSILON")
    case True
    with nxt r(3) have "c' = (rule_dst rule, r)" by (cases c') simp
    with True r(2) eps show ?thesis by simp
  next
    case False
    with nxt r(3) have "c' = (rule_dst rule, tl r)" "r \<noteq> []" "Rule_match rule [hd r] = Inr True"
      by (cases c'; simp)+
    with False r(2) chr show ?thesis by simp
  qed
qed

lemma exec_step_running_not_accepting:
  assumes "exec_step nfa st = Running st'" "stack st = (q, r, s) # stk"
  shows "\<not> accepting nfa (q, r)"
  using assms
  by (auto simp: exec_step_def accepting_def Let_def split: sum.splits if_splits)

lemma exec_step_None: "exec_step nfa st = Done (Inr None) \<Longrightarrow> stack st = []"
  by (cases "stack st")
     (auto simp: exec_step_def Let_def split: sum.splits if_splits)

lemma explored_step:
  assumes "\<exists>P. explored nfa text P st" "exec_step nfa st = Running st'"
  shows "\<exists>P. explored nfa text P st'"
proof -
  from assms(1) obtain P where P: "(0, text) \<in> P \<union> configs (stack st)"
    "visited st \<subseteq> P \<union> configs (stack st)"
    "\<forall>c \<in> P. \<not> accepting nfa c \<and>
        (\<forall>c'. successor nfa c c' \<longrightarrow> c' \<in> P \<union> configs (stack st))"
    unfolding explored_def by blast
  from assms(2) obtain q r s stk rs where st: "stack st = (q, r, s) # stk"
    "py_index (rules nfa) q = Inr rs"
    "expand r s (rev rs) stk (visited st) = Inr (stack st', visited st')"
    by (rule exec_step_running)
  from exec_step_running_not_accepting [OF assms(2) st(1)] have na: "\<not> accepting nfa (q, r)" .
  let ?P = "insert (q, r) P"
  let ?C' = "configs (stack st')"
  from expand_covers [OF st(3)] have cov: "configs stk \<subseteq> ?C'" "visited st' \<subseteq> visited st \<union> ?C'"
    "\<forall>rule \<in> set rs.
        if rule_type rule = Member EPSILON then (rule_dst rule, r) \<in> visited st'
        else r \<noteq> [] \<and> Rule_match rule [hd r] = Inr True \<longrightarrow>
             (rule_dst rule, tl r) \<in> ?C'"
    by simp_all
  have C: "configs (stack st) = insert (q, r) (configs stk)"
    by (simp add: st(1) configs_def)
  have mono: "P \<union> configs (stack st) \<subseteq> ?P \<union> ?C'"
    using cov(1) unfolding C by blast
  have a: "(0, text) \<in> ?P \<union> ?C'" using P(1) mono by blast
  have b: "visited st' \<subseteq> ?P \<union> ?C'" using cov(2) P(2) mono by blast
  have c: "\<not> accepting nfa c \<and> (\<forall>c'. successor nfa c c' \<longrightarrow> c' \<in> ?P \<union> ?C')"
    if "c \<in> ?P" for c
  proof (cases "c = (q, r)")
    case True
    have "c' \<in> ?P \<union> ?C'" if "successor nfa (q, r) c'" for c'
    proof -
      from that st(2) show ?thesis
      proof (cases rule: successor_cases)
        case (eps rule)
        with cov(3) have "(rule_dst rule, r) \<in> visited st'" by auto
        with eps(3) b show ?thesis by blast
      next
        case (chr rule)
        with cov(3) have "(rule_dst rule, tl r) \<in> ?C'" by auto
        with chr(5) show ?thesis by blast
      qed
    qed
    with na True show ?thesis by blast
  next
    case False
    with that have "c \<in> P" by simp
    with P(3) mono show ?thesis by blast
  qed
  from a b c have "explored nfa text ?P st'" unfolding explored_def by blast
  then show ?thesis ..
qed

lemma explored_init: "\<exists>P. explored nfa text P (exec_init text)"
proof
  show "explored nfa text {} (exec_init text)"
    by (simp add: explored_def exec_init_def configs_def)
qed

lemma exec_None_no_accepting_run:
  assumes "exec nfa text = Inr None"
  shows "\<not> accepting_run nfa 0 text run"
proof -
  have "exec_loop nfa (exec_init text) = Inr None \<longrightarrow> (\<forall>run. \<not> accepting_run nfa 0 text run)"
  proof (rule exec_loop_invariant [where I = "\<lambda>st. \<exists>P. explored nfa text P st"])
    show "\<exists>P. explored nfa text P (exec_init text)" by (rule explored_init)
  next
    fix st st' assume "\<exists>P. explored nfa text P st" "exec_step nfa st = Running st'"
    then show "\<exists>P. explored nfa text P st'" by (rule explored_step)
  next
    fix st r assume inv: "\<exists>P. explored nfa text P st" and stop: "exec_step nfa st = Done r"
    show "r = Inr None \<longrightarrow> (\<forall>run. \<not> accepting_run nfa 0 text run)"
    proof (intro impI allI)
      fix run assume "r = Inr None"
      with stop have "stack st = []" by (simp add: exec_step_None)
      with inv obtain P where "(0, text) \<in> P"
        "\<forall>c \<in> P. \<not> accepting nfa c \<and> (\<forall>c'. successor nfa c c' \<longrightarrow> c' \<in> P)"
        unfolding explored_def by (auto simp: configs_def)
      from closed_no_accepting_run [OF this(2,1)] show "\<not> accepting_run nfa 0 text run" .
    qed
  qed
  with assms show ?thesis by (simp add: exec_def)
qed

lemma expand_origin:
  "expand r s rl stk vis = Inr (stk', vis') \<Longrightarrow>
     \<exists>new. stk' = new @ stk \<and>
       (\<forall>f \<in> set new. \<exists>rule \<in> set rl. fst f = rule_dst rule \<and>
          (if rule_type rule = Member EPSILON then fst (snd f) = r
           else r \<noteq> [] \<and> Rule_match rule [hd r] = Inr True \<and> fst (snd f) = tl r))"
proof (induction rl arbitrary: stk vis)
  case Nil
  then show ?case by simp
next
  case (Cons rule rest)
  let ?ok = "\<lambda>rl f. \<exists>rule \<in> set rl. fst f = rule_dst rule \<and>
          (if rule_type rule = Member EPSILON then fst (snd f) = r
           else r \<noteq> [] \<and> Rule_match rule [hd r] = Inr True \<and> fst (snd f) = tl r)"
  have weaken: "?ok (rule # rest) f" if "?ok rest f" for f
    using that by auto
  from Cons.prems show ?case
  proof (cases rule: expand_Cons_cases)
    case skip
    from Cons.IH [OF skip(1)] obtain new where "stk' = new @ stk" "\<forall>f \<in> set new. ?ok rest f"
      by blast
    with weaken have "stk' = new @ stk \<and> (\<forall>f \<in> set new. ?ok (rule # rest) f)" by blast
    then show ?thesis ..
  next
    case eps
    let ?f = "(rule_dst rule, r, s + 1)"
    from Cons.IH [OF eps(3)] obtain new where new: "stk' = new @ ?f # stk"
      "\<forall>f \<in> set new. ?ok rest f"
      by blast
    have "?ok (rule # rest) ?f" using eps(1) by simp
    with new(2) weaken have "\<forall>f \<in> set (new @ [?f]). ?ok (rule # rest) f" by auto
    moreover from new(1) have "stk' = (new @ [?f]) @ stk" by simp
    ultimately show ?thesis by blast
  next
    case chr
    let ?f = "(rule_dst rule, tl r, s + 1)"
    from Cons.IH [OF chr(4)] obtain new where new: "stk' = new @ ?f # stk"
      "\<forall>f \<in> set new. ?ok rest f"
      by blast
    have "?ok (rule # rest) ?f" using chr(1,2,3) by simp
    with new(2) weaken have "\<forall>f \<in> set (new @ [?f]). ?ok (rule # rest) f" by auto
    moreover from new(1) have "stk' = (new @ [?f]) @ stk" by simp
    ultimately show ?thesis by blast
  qed
qed

lemma exec_step_origin:
  assumes "exec_step nfa st = Running st'"
  obtains q r s stk rs new where "stack st = (q, r, s) # stk"
    "py_index (rules nfa) q = Inr rs" "stack st' = new @ stk"
    "\<forall>f \<in> set new. \<exists>rule \<in> set rs. fst f = rule_dst rule \<and>
          (if rule_type rule = Member EPSILON then fst (snd f) = r
           else r \<noteq> [] \<and> Rule_match rule [hd r] = Inr True \<and> fst (snd f) = tl r)"
proof -
  from assms obtain q r s stk rs where st: "stack st = (q, r, s) # stk"
    "py_index (rules nfa) q = Inr rs"
    "expand r s (rev rs) stk (visited st) = Inr (stack st', visited st')"
    by (rule exec_step_running)
  from expand_origin [OF st(3)] obtain new where "stack st' = new @ stk"
    "\<forall>f \<in> set new. \<exists>rule \<in> set rs. fst f = rule_dst rule \<and>
          (if rule_type rule = Member EPSILON then fst (snd f) = r
           else r \<noteq> [] \<and> Rule_match rule [hd r] = Inr True \<and> fst (snd f) = tl r)"
    by auto
  with st(1,2) that show ?thesis by blast
qed

lemma sound_frames_init: "sound_frames nfa text (exec_init text)"
  unfolding sound_frames_def exec_init_def by auto

lemma sound_frames_top:
  assumes "sound_frames nfa text st" "stack st = (q, r, s) # stk" "accepting_run nfa q r run"
  shows "\<exists>run'. accepting_run nfa 0 text run'"
proof -
  from assms(2) have "(q, r, s) \<in> set (stack st)" by simp
  with assms(1) have "\<forall>run. accepting_run nfa (fst (q, r, s)) (fst (snd (q, r, s))) run \<longrightarrow>
        (\<exists>run'. accepting_run nfa 0 text run')"
    unfolding sound_frames_def by (rule bspec)
  then have "accepting_run nfa q r run \<longrightarrow> (\<exists>run'. accepting_run nfa 0 text run')"
    unfolding fst_conv snd_conv by (rule spec)
  with assms(3) show ?thesis by (rule rev_mp)
qed

lemma sound_frames_step:
  assumes "sound_frames nfa text st" "exec_step nfa st = Running st'"
  shows "sound_frames nfa text st'"
proof -
  from assms(2) obtain q r s stk rs new where st: "stack st = (q, r, s) # stk"
    "py_index (rules nfa) q = Inr rs" "stack st' = new @ stk"
    and new: "\<forall>f \<in> set new. \<exists>rule \<in> set rs. fst f = rule_dst rule \<and>
          (if rule_type rule = Member EPSILON then fst (snd f) = r
           else r \<noteq> [] \<and> Rule_match rule [hd r] = Inr True \<and> fst (snd f) = tl r)"
    by (rule exec_step_origin)
  from assms(1) st(1) have top: "\<And>run. accepting_run nfa q r run \<Longrightarrow>
      \<exists>run'. accepting_run nfa 0 text run'"
    unfolding sound_frames_def by fastforce
  have "\<exists>run'. accepting_run nfa 0 text run'"
    if f: "f \<in> set (stack st')" and run: "accepting_run nfa (fst f) (fst (snd f)) run" for f run
  proof -
    from f st(3) consider "f \<in> set new" | "f \<in> set stk" by auto
    then show ?thesis
    proof cases
      case 1
      with new obtain rule where rule: "rule \<in> set rs" "fst f = rule_dst rule"
        "if rule_type rule = Member EPSILON then fst (snd f) = r
           else r \<noteq> [] \<and> Rule_match rule [hd r] = Inr True \<and> fst (snd f) = tl r"
        by blast
      have "accepting_run nfa q r (rule # run)"
      proof (cases "rule_type rule = Member EPSILON")
        case True
        with rule run st(2) show ?thesis by (simp add: accepting_run_Cons)
      next
        case False
        with rule run st(2) show ?thesis by (simp add: accepting_run_Cons)
      qed
      then show ?thesis by (rule top)
    next
      case 2
      with assms(1) st(1) run show ?thesis unfolding sound_frames_def by auto
    qed
  qed
  then show ?thesis unfolding sound_frames_def by blast
qed

lemma exec_Some_accepting_run:
  assumes "exec nfa text = Inr (Some p)"
  shows "\<exists>run. accepting_run nfa 0 text run"
proof -
  have "(\<exists>p. exec_loop nfa (exec_init text) = Inr (Some p)) \<longrightarrow>
      (\<exists>run. accepting_run nfa 0 text run)"
  proof (rule exec_loop_invariant [where I = "sound_frames nfa text"])
    show "sound_frames nfa text (exec_init text)" by (rule sound_frames_init)
  next
    fix st st' assume "sound_frames nfa text st" "exec_step nfa st = Running st'"
    then show "sound_frames nfa text st'" by (rule sound_frames_step)
  next
    fix st r assume inv: "sound_frames nfa text st" and stop: "exec_step nfa st = Done r"
    show "(\<exists>p. r = Inr (Some p)) \<longrightarrow> (\<exists>run. accepting_run nfa 0 text run)"
    proof
      assume "\<exists>p. r = Inr (Some p)"
      then obtain p where "r = Inr (Some p)" ..
      with stop have "exec_step nfa st = Done (Inr (Some p))" by simp
      then obtain q s stk where top: "stack st = (q, [], s) # stk"
        "py_index (is_final nfa) q = Inr True"
        by (rule exec_step_accept)
      then have "accepting_run nfa q [] []" by simp
      with inv top(1) show "\<exists>run. accepting_run nfa 0 text run"
        by (rule sound_frames_top)
    qed
  qed
  with assms show ?thesis by (auto simp: exec_def)
qed

lemma py_index_in_range:
  "0 \<le> i \<Longrightarrow> i < int (length xs) \<Longrightarrow> py_index xs i = Inr (xs ! nat i)"
  by (simp add: py_index_def)

lemma Rule_match_wf:
  assumes "wf_rule nfa rule" "rule_type rule \<noteq> Member EPSILON"
  shows "\<exists>b. Rule_match rule [c] = Inr b"
proof (cases "rule_type rule")
  case Unset
  with assms(1) show ?thesis by (simp add: wf_rule_def)
next
  case Foreign
  with assms(1) show ?thesis by (simp add: wf_rule_def)
next
  case (Member t)
  show ?thesis
  proof (cases t)
    case NORMAL
    with Member show ?thesis by (simp add: Rule_match_def)
  next
    case RANGE
    with Member assms(1) obtain a b where "rule_by rule = [a]" "rule_to rule = [b]"
      by (auto simp: wf_rule_def length_Suc_conv)
    with RANGE Member show ?thesis by (auto simp: Rule_match_def)
  next
    case SPECIAL
    with Member assms(1) have "rule_by rule \<in> {''d'', ''w'', ''s'', ''D'', ''W'', ''S'', ''.''}"
      by (simp add: wf_rule_def)
    with SPECIAL Member show ?thesis by (auto simp: Rule_match_def)
  next
    case EPSILON
    with Member assms(2) show ?thesis by simp
  qed
qed

lemma expand_total:
  assumes "\<forall>rule \<in> set rl. wf_rule nfa rule"
  shows "\<exists>res. expand r s rl stk vis = Inr res"
  using assms
proof (induction rl arbitrary: stk vis)
  case Nil
  then show ?case by simp
next
  case (Cons rule rest)
  then have ih: "\<And>stk vis. \<exists>res. expand r s rest stk vis = Inr res" by simp
  from Cons.prems have set: "rule_type rule \<noteq> Unset" by (simp add: wf_rule_def)
  show ?case
  proof (cases "rule_type rule = Member EPSILON \<or> r = []")
    case True
    with ih set show ?thesis by auto
  next
    case False
    with Cons.prems obtain b where "Rule_match rule [hd r] = Inr b"
      using Rule_match_wf [of nfa rule "hd r"] by auto
    with False ih set show ?thesis by auto
  qed
qed

lemma frames_in_range_init: "wf_nfa nfa \<Longrightarrow> frames_in_range nfa (exec_init text)"
  by (simp add: frames_in_range_def exec_init_def wf_nfa_def)

lemma frames_in_range_step:
  assumes "wf_nfa nfa" "frames_in_range nfa st" "exec_step nfa st = Running st'"
  shows "frames_in_range nfa st'"
proof -
  from assms(3) obtain q r s stk rs new where st: "stack st = (q, r, s) # stk"
    "py_index (rules nfa) q = Inr rs" "stack st' = new @ stk"
    and new: "\<forall>f \<in> set new. \<exists>rule \<in> set rs. fst f = rule_dst rule \<and>
          (if rule_type rule = Member EPSILON then fst (snd f) = r
           else r \<noteq> [] \<and> Rule_match rule [hd r] = Inr True \<and> fst (snd f) = tl r)"
    by (rule exec_step_origin)
  from st(2) have "rs \<in> set (rules nfa)" by (rule py_index_in_set)
  with assms(1) have wf: "\<forall>rule \<in> set rs. wf_rule nfa rule" by (simp add: wf_nfa_def)
  have "0 \<le> fst f \<and> fst f < num_states nfa" if "f \<in> set (stack st')" for f
  proof -
    from that st(3) consider "f \<in> set new" | "f \<in> set stk" by auto
    then show ?thesis
    proof cases
      case 1
      with new obtain rule where "rule \<in> set rs" "fst f = rule_dst rule" by blast
      with wf show ?thesis by (auto simp: wf_rule_def)
    next
      case 2
      with assms(2) st(1) show ?thesis by (simp add: frames_in_range_def)
    qed
  qed
  then show ?thesis by (simp add: frames_in_range_def)
qed

lemma exec_step_Done_wf:
  assumes "wf_nfa nfa" "frames_in_range nfa st" "exec_step nfa st = Done res"
  shows "(stack st = [] \<and> res = Inr None) \<or>
         (\<exists>q s stk. stack st = (q, [], s) # stk \<and> py_index (is_final nfa) q = Inr True \<and>
            res = (case backtrace (AList.update s (q, []) (path st)) of
                     Inl e \<Rightarrow> Inl e | Inr p \<Rightarrow> Inr (Some p)))"
proof (cases "stack st")
  case Nil
  with assms(3) show ?thesis by (simp add: exec_step_def)
next
  case (Cons f stk)
  obtain q r s where f: "f = (q, r, s)" by (cases f)
  from assms(2) Cons f have q: "0 \<le> q" "q < num_states nfa"
    by (simp_all add: frames_in_range_def)
  from assms(1) q have fin: "py_index (is_final nfa) q = Inr (is_final nfa ! nat q)"
    by (intro py_index_in_range) (simp_all add: wf_nfa_def)
  from assms(1) q have rs: "py_index (rules nfa) q = Inr (rules nfa ! nat q)"
    by (intro py_index_in_range) (simp_all add: wf_nfa_def)
  then have "rules nfa ! nat q \<in> set (rules nfa)" by (rule py_index_in_set)
  with assms(1) have "\<forall>rule \<in> set (rev (rules nfa ! nat q)). wf_rule nfa rule"
    by (simp add: wf_nfa_def)
  from expand_total [OF this] obtain stk' vis' where
    ex: "expand r s (rev (rules nfa ! nat q)) stk (visited st) = Inr (stk', vis')"
    by fastforce
  show ?thesis
  proof (cases "is_final nfa ! nat q \<and> r = []")
    case True
    with assms(3) Cons f fin have "res = (case backtrace (AList.update s (q, []) (path st)) of
                     Inl e \<Rightarrow> Inl e | Inr p \<Rightarrow> Inr (Some p))"
      by (auto simp: exec_step_def split: sum.splits)
    with True Cons f fin show ?thesis by simp
  next
    case False
    with assms(3) Cons f fin rs ex show ?thesis
      by (simp add: exec_step_def)
  qed
qed

lemma backtrace_loop_errors:
  "backtrace_loop p j sts cons = Inl e \<Longrightarrow> e = KeyError \<or> e = IndexError"
proof (induction j arbitrary: sts cons)
  case 0
  then show ?case by simp
next
  case (Suc j)
  show ?case
  proof (cases "\<exists>q c. backtrace_loop p j (sts @ [q]) (cons @ [c]) = Inl e")
    case True
    with Suc.IH show ?thesis by blast
  next
    case False
    with Suc.prems show ?thesis
      by (auto split: option.splits if_splits list.splits)
  qed
qed

lemma backtrace_errors:
  assumes "backtrace p = Inl e" "p \<noteq> []"
  shows "e = KeyError \<or> e = IndexError"
proof -
  from assms have "backtrace_loop p (Max (set (map fst p))) [] [] = Inl e"
    by (auto simp: backtrace_def split: sum.splits)
  then show ?thesis by (rule backtrace_loop_errors)
qed

text \<open>
  On a well-formed automaton a call of \<^verbatim>\<open>exec\<close> ends in one of three ways: with \<^verbatim>\<open>None\<close>,
  with a path, or with the IndexError of \<^verbatim>\<open>backtrace\<close>; the last two only when an accepting
  run exists.
\<close>

lemma exec_wf_outcome:
  assumes "wf_nfa nfa"
  shows "exec nfa text = Inr None \<or>
         (((\<exists>p. exec nfa text = Inr (Some p)) \<or> exec nfa text = Inl IndexError) \<and>
          (\<exists>run. accepting_run nfa 0 text run))"
proof -
  let ?I = "\<lambda>st. sound_frames nfa text st \<and> frames_in_range nfa st \<and> (\<exists>n. keys_below n st)"
  let ?P = "\<lambda>res. res = Inr None \<or>
         (((\<exists>p. res = Inr (Some p)) \<or> res = Inl IndexError) \<and>
          (\<exists>run. accepting_run nfa 0 text run))"
  have "?P (exec_loop nfa (exec_init text))"
  proof (rule exec_loop_invariant [where I = ?I])
    show "?I (exec_init text)"
      using sound_frames_init frames_in_range_init [OF assms] keys_below_init by blast
  next
    fix st st' assume "?I st" "exec_step nfa st = Running st'"
    then show "?I st'"
      using sound_frames_step frames_in_range_step [OF assms] keys_below_step by blast
  next
    fix st res assume inv: "?I st" and stop: "exec_step nfa st = Done res"
    from inv obtain n where n: "keys_below n st" by blast
    from inv have "frames_in_range nfa st" by simp
    from exec_step_Done_wf [OF assms this stop] show "?P res"
    proof
      assume "stack st = [] \<and> res = Inr None"
      then show ?thesis by simp
    next
      assume "\<exists>q s stk. stack st = (q, [], s) # stk \<and> py_index (is_final nfa) q = Inr True \<and>
            res = (case backtrace (AList.update s (q, []) (path st)) of
                     Inl e \<Rightarrow> Inl e | Inr p \<Rightarrow> Inr (Some p))"
      then obtain q s stk where top: "stack st = (q, [], s) # stk"
        "py_index (is_final nfa) q = Inr True"
        and res: "res = (case backtrace (AList.update s (q, []) (path st)) of
                     Inl e \<Rightarrow> Inl e | Inr p \<Rightarrow> Inr (Some p))"
        by blast
      let ?p = "AList.update s (q, []) (path st)"
      from top(2) have "accepting_run nfa q [] []" by simp
      with inv top(1) have run: "\<exists>run. accepting_run nfa 0 text run"
        using sound_frames_top by blast
      have "{..<max n (Suc s)} = {..max n (Suc s) - 1}" by auto
      with keys_below_record [OF n top(1)] have "fst ` set ?p = {..max n (Suc s) - 1}" by simp
      then have nk: "backtrace ?p \<noteq> Inl KeyError" by (rule backtrace_no_KeyError)
      have "(\<exists>p. res = Inr (Some p)) \<or> res = Inl IndexError"
      proof (cases "backtrace ?p")
        case (Inl e)
        then have "e = KeyError \<or> e = IndexError" by (rule backtrace_errors) simp
        with nk Inl res show ?thesis by auto
      next
        case (Inr pth)
        with res show ?thesis by simp
      qed
      with run show ?thesis by blast
    qed
  qed
  then show ?thesis by (simp add: exec_def)
qed

text \<open>
  So \<^verbatim>\<open>exec\<close> returns \<^verbatim>\<open>None\<close> exactly when no accepting run exists, and when one exists it
  returns a path or raises IndexError.
\<close>

lemma exec_None_iff:
  assumes "wf_nfa nfa"
  shows "exec nfa text = Inr None \<longleftrightarrow> (\<forall>run. \<not> accepting_run nfa 0 text run)"
  using exec_None_no_accepting_run [of nfa "text"] exec_wf_outcome [OF assms, of "text"]
  by blast

lemma exec_accepted_outcome:
  assumes "wf_nfa nfa" "accepting_run nfa 0 text run"
  shows "(\<exists>p. exec nfa text = Inr (Some p)) \<or> exec nfa text = Inl IndexError"
  using exec_None_no_accepting_run [of nfa "text" run] exec_wf_outcome [OF assms(1), of "text"]
    assms(2)
  by blast

subsection \<open>Termination\<close>

lemma loop_exit_wf:
  assumes "wf_nfa nfa" "exec_iter nfa k (exec_init text) = Running st"
    "exec_step nfa st = Done res"
  shows "(stack st = [] \<and> res = Inr None) \<or>
         (\<exists>q s stk. stack st = (q, [], s) # stk \<and> py_index (is_final nfa) q = Inr True \<and>
            res = (case backtrace (AList.update s (q, []) (path st)) of
                     Inl e \<Rightarrow> Inl e | Inr p \<Rightarrow> Inr (Some p)))"
proof -
  have "frames_in_range nfa st"
  proof (rule exec_iter_invariant [where I = "frames_in_range nfa", OF _ _ assms(2)])
    show "frames_in_range nfa (exec_init text)" using assms(1) by (rule frames_in_range_init)
  qed (rule frames_in_range_step [OF assms(1)])
  from exec_step_Done_wf [OF assms(1) this assms(3)] show ?thesis .
qed

text \<open>
  Claim C5, without its promise about the kind of result: for every automaton and input the
  loop of \<^verbatim>\<open>exec\<close> ends within \<open>exec_bound\<close> iterations. On a well-formed automaton the
  iteration that ends the call is \<^verbatim>\<open>return None\<close> on the empty stack or
  \<^verbatim>\<open>return self.backtrace(path)\<close> on a popped final state with no input left; what
  \<^verbatim>\<open>backtrace\<close> then yields is no part of this statement. A frame pushed by a rule that is
  not an epsilon rule has a strictly shorter remaining input than the popped frame. The
  configurations pushed by epsilon rules are pairwise different, within one iteration and
  between any two iterations of the call. The pushes counted here are all the frames an
  iteration puts on the stack.
\<close>

theorem exec_terminates:
  "(\<exists>k \<le> exec_bound nfa text. exec_iter nfa k (exec_init text) = Done (exec nfa text))
   \<and> (wf_nfa nfa \<longrightarrow>
        (\<forall>k st res. exec_iter nfa k (exec_init text) = Running st \<and> exec_step nfa st = Done res \<longrightarrow>
           (stack st = [] \<and> res = Inr None) \<or>
           (\<exists>q s stk. stack st = (q, [], s) # stk \<and> py_index (is_final nfa) q = Inr True \<and>
              res = (case backtrace (AList.update s (q, []) (path st)) of
                       Inl e \<Rightarrow> Inl e | Inr p \<Rightarrow> Inr (Some p)))))
   \<and> (\<forall>st p. p \<in> set (pushed_by nfa st) \<and> rule_type (fst p) \<noteq> Member EPSILON \<longrightarrow>
         length (fst (snd (snd p))) < length (fst (snd (hd (stack st)))))
   \<and> (\<forall>i sti. exec_iter nfa i (exec_init text) = Running sti \<longrightarrow>
         distinct (eps_pushed nfa sti) \<and>
         (\<forall>j stj. i < j \<and> exec_iter nfa j (exec_init text) = Running stj \<longrightarrow>
            set (eps_pushed nfa sti) \<inter> set (eps_pushed nfa stj) = {}))
   \<and> (\<forall>st st'. exec_step nfa st = Running st' \<longrightarrow>
         stack st' = rev (map snd (pushed_by nfa st)) @ tl (stack st))"
proof (intro conjI allI impI)
  from exec_iter_reaches [of nfa "exec_init text"] search_measure_init [of nfa "text"]
  show "\<exists>k \<le> exec_bound nfa text. exec_iter nfa k (exec_init text) = Done (exec nfa text)"
    unfolding exec_def by (meson order_trans)
next
  fix k st res
  assume "wf_nfa nfa" "exec_iter nfa k (exec_init text) = Running st \<and> exec_step nfa st = Done res"
  then show "(stack st = [] \<and> res = Inr None) \<or>
           (\<exists>q s stk. stack st = (q, [], s) # stk \<and> py_index (is_final nfa) q = Inr True \<and>
              res = (case backtrace (AList.update s (q, []) (path st)) of
                       Inl e \<Rightarrow> Inl e | Inr p \<Rightarrow> Inr (Some p)))"
    using loop_exit_wf by blast
next
  fix st p
  assume "p \<in> set (pushed_by nfa st) \<and> rule_type (fst p) \<noteq> Member EPSILON"
  then show "length (fst (snd (snd p))) < length (fst (snd (hd (stack st))))"
    using pushed_by_shorter by blast
next
  fix i sti
  show "distinct (eps_pushed nfa sti)" by (rule eps_pushed_distinct)
next
  fix i sti j stj
  assume "exec_iter nfa i (exec_init text) = Running sti"
    "i < j \<and> exec_iter nfa j (exec_init text) = Running stj"
  then show "set (eps_pushed nfa sti) \<inter> set (eps_pushed nfa stj) = {}"
    using eps_pushed_disjoint by blast
next
  fix st st'
  assume "exec_step nfa st = Running st'"
  then show "stack st' = rev (map snd (pushed_by nfa st)) @ tl (stack st)"
    by (rule pushed_by_stack)
qed

theorem exec_terminates_witness:
  "wf_nfa nfa_epsilon_branch
   \<and> exec_iter nfa_epsilon_branch 3 (exec_init ''a'')
       = Running \<lparr>stack = [(3, [], 1)], path = [(0, 0, ''a''), (1, 1, ''a''), (2, 2, ''a'')],
           visited = {(1, ''a''), (2, ''a'')}\<rparr>
   \<and> exec_step nfa_epsilon_branch
         \<lparr>stack = [(3, [], 1)], path = [(0, 0, ''a''), (1, 1, ''a''), (2, 2, ''a'')],
            visited = {(1, ''a''), (2, ''a'')}\<rparr>
       = Done (case backtrace (AList.update 1 (3, []) [(0, 0, ''a''), (1, 1, ''a''), (2, 2, ''a'')])
               of Inl e \<Rightarrow> Inl e | Inr p \<Rightarrow> Inr (Some p))
   \<and> (normal_rule 3 ''a'', (3, [], 1)) \<in> set (pushed_by nfa_epsilon_branch (exec_init ''a''))
   \<and> rule_type (normal_rule 3 ''a'') \<noteq> Member EPSILON
   \<and> length ([] :: string) < length (fst (snd (hd (stack (exec_init ''a'')))))
   \<and> exec_iter nfa_epsilon_branch 0 (exec_init ''a'') = Running (exec_init ''a'')
   \<and> exec_iter nfa_epsilon_branch 1 (exec_init ''a'')
       = Running \<lparr>stack = [(1, ''a'', 1), (3, [], 1)], path = [(0, 0, ''a'')],
           visited = {(1, ''a'')}\<rparr>
   \<and> distinct (eps_pushed nfa_epsilon_branch (exec_init ''a''))
   \<and> set (eps_pushed nfa_epsilon_branch (exec_init ''a''))
       \<inter> set (eps_pushed nfa_epsilon_branch
           \<lparr>stack = [(1, ''a'', 1), (3, [], 1)], path = [(0, 0, ''a'')],
              visited = {(1, ''a'')}\<rparr>) = {}
   \<and> exec_step nfa_epsilon_branch (exec_init ''a'')
       = Running \<lparr>stack = [(1, ''a'', 1), (3, [], 1)], path = [(0, 0, ''a'')],
           visited = {(1, ''a'')}\<rparr>
   \<and> [(1, ''a'', 1), (3, [], 1)]
       = rev (map snd (pushed_by nfa_epsilon_branch (exec_init ''a''))) @ tl (stack (exec_init ''a''))"
proof -
  let ?s1 = "\<lparr>stack = [(1, ''a'', 1), (3, [], 1)], path = [(0, 0, ''a'')],
           visited = {(1 :: int, ''a'')}\<rparr>"
  let ?s3 = "\<lparr>stack = [(3, [], 1)], path = [(0, 0, ''a''), (1, 1, ''a''), (2, 2, ''a'')],
           visited = {(1 :: int, ''a''), (2, ''a'')}\<rparr>"
  have wf: "wf_nfa nfa_epsilon_branch" by code_simp
  have run3: "exec_iter nfa_epsilon_branch 3 (exec_init ''a'') = Running ?s3" by code_simp
  have exit3: "exec_step nfa_epsilon_branch ?s3 = Done (Inl IndexError)" by code_simp
  have bt: "backtrace (AList.update 1 (3, []) [(0, 0, ''a''), (1, 1, ''a''), (2, 2, ''a'')])
      = Inl IndexError" by code_simp
  have push: "(normal_rule 3 ''a'', (3, [], 1)) \<in> set (pushed_by nfa_epsilon_branch (exec_init ''a''))"
    by code_simp
  have nonepsilon: "rule_type (fst (normal_rule 3 ''a'', (3 :: int, [] :: string, 1 :: nat)))
      \<noteq> Member EPSILON"
    by (simp add: normal_rule_def)
  have run0: "exec_iter nfa_epsilon_branch 0 (exec_init ''a'') = Running (exec_init ''a'')"
    by simp
  have run1: "exec_iter nfa_epsilon_branch 1 (exec_init ''a'') = Running ?s1" by code_simp
  have step0: "exec_step nfa_epsilon_branch (exec_init ''a'') = Running ?s1" by code_simp
  note inst = exec_terminates [of nfa_epsilon_branch "''a''"]
  from inst wf run3 exit3 have c1: "(stack ?s3 = [] \<and> Inl IndexError = Inr None) \<or>
           (\<exists>q s stk. stack ?s3 = (q, [], s) # stk
              \<and> py_index (is_final nfa_epsilon_branch) q = Inr True \<and>
              Inl IndexError = (case backtrace (AList.update s (q, []) (path ?s3)) of
                       Inl e \<Rightarrow> Inl e | Inr p \<Rightarrow> Inr (Some p)))"
    by blast
  from inst push nonepsilon have c2: "length (fst (snd (snd (normal_rule 3 ''a'', (3 :: int, [] :: string, 1 :: nat)))))
      < length (fst (snd (hd (stack (exec_init ''a'')))))"
    by blast
  from inst run0 have c3: "distinct (eps_pushed nfa_epsilon_branch (exec_init ''a''))"
    by blast
  have lt: "(0 :: nat) < 1" by simp
  from inst run0 run1 lt have c4: "set (eps_pushed nfa_epsilon_branch (exec_init ''a''))
       \<inter> set (eps_pushed nfa_epsilon_branch ?s1) = {}"
    by blast
  from inst step0 have c5: "stack ?s1
      = rev (map snd (pushed_by nfa_epsilon_branch (exec_init ''a''))) @ tl (stack (exec_init ''a''))"
    by blast
  from wf run3 exit3 bt push nonepsilon c2 run0 run1 c3 c4 step0 c5 show ?thesis by simp
qed

text \<open>
  Claim C5 promises a path or \<^verbatim>\<open>None\<close> for every automaton. On an automaton that is not
  well-formed the loop itself raises: ValueError on an unknown class tag, AttributeError on a
  rule without a type, IndexError on a destination that is no state, TypeError on a RANGE
  rule with an empty bound.
\<close>

theorem exec_raises_on_malformed_automata:
  "exec nfa_unknown_tag ''a'' = Inl ValueError
   \<and> exec nfa_untyped_rule ''a'' = Inl AttributeError
   \<and> exec nfa_bad_destination ''a'' = Inl IndexError
   \<and> exec nfa_empty_bound ''a'' = Inl TypeError"
proof (intro conjI)
  show "exec nfa_unknown_tag ''a'' = Inl ValueError"
    by (rule exec_by_iter [where k = 1]) code_simp
  show "exec nfa_untyped_rule ''a'' = Inl AttributeError"
    by (rule exec_by_iter [where k = 1]) code_simp
  show "exec nfa_bad_destination ''a'' = Inl IndexError"
    by (rule exec_by_iter [where k = 2]) code_simp
  show "exec nfa_empty_bound ''a'' = Inl TypeError"
    by (rule exec_by_iter [where k = 1]) code_simp
qed

subsection \<open>Entries of abandoned branches in the trace\<close>

text \<open>
  \<^verbatim>\<open>backtrace\<close> starts from \<^verbatim>\<open>max(path.keys())\<close>, and the trace keeps the entries of a
  deeper branch that the search has abandoned. The three evaluations below show the effect,
  each on a well-formed automaton.
\<close>

lemma examples_well_formed:
  "wf_nfa nfa_dead_branch \<and> wf_nfa nfa_epsilon_branch \<and> wf_nfa nfa_long_branch"
  by code_simp

text \<open>
  Claim C3 says that the last state of a returned path is final. On \<open>nfa_dead_branch\<close> and the
  input \<open>a\<close> the search accepts in state 3 at step 1, the trace still holds state 2 at step 2,
  and the returned path ends in state 2, which is not final.
\<close>

theorem exec_path_ends_in_stale_state:
  "exec nfa_dead_branch ''a'' = Inr (Some \<lparr>states = [0, 3, 2], consumes = [''a'', '''']\<rparr>)
   \<and> py_index (is_final nfa_dead_branch) (last [0, 3, 2]) = Inr False"
proof (intro conjI)
  show "exec nfa_dead_branch ''a''
      = Inr (Some \<lparr>states = [0, 3, 2], consumes = [''a'', '''']\<rparr>)"
    by (rule exec_by_iter [where k = 4]) code_simp
  show "py_index (is_final nfa_dead_branch) (last [0, 3, 2]) = Inr False"
    by code_simp
qed

text \<open>
  Claim C4 says that \<^verbatim>\<open>backtrace\<close> never fails when the search pops a final state with no
  input left. On \<open>nfa_epsilon_branch\<close> and the input \<open>a\<close> the fourth iteration pops state 3
  with no input left, state 3 is final, and \<^verbatim>\<open>backtrace\<close> on the trace with that frame
  recorded raises IndexError: step 2 still holds the remaining input \<open>a\<close> of the abandoned
  branch, step 1 now holds the empty one.
\<close>

theorem backtrace_fails_on_stale_entry:
  "exec_iter nfa_epsilon_branch 3 (exec_init ''a'')
     = Running \<lparr>stack = [(3, [], 1)], path = [(0, 0, ''a''), (1, 1, ''a''), (2, 2, ''a'')],
         visited = {(1, ''a''), (2, ''a'')}\<rparr>
   \<and> py_index (is_final nfa_epsilon_branch) 3 = Inr True
   \<and> backtrace (AList.update 1 (3, []) [(0, 0, ''a''), (1, 1, ''a''), (2, 2, ''a'')])
       = Inl IndexError"
  by code_simp

text \<open>
  Claim C1 says that \<^verbatim>\<open>exec\<close> returns a path whenever an accepting run exists. On
  \<open>nfa_long_branch\<close> the input \<open>ab\<close> has the accepting run 0, 3, 4, and \<^verbatim>\<open>exec\<close> raises
  IndexError.
\<close>

theorem exec_raises_on_accepted_input:
  "accepting_run nfa_long_branch 0 ''ab'' [normal_rule 3 ''a'', normal_rule 4 ''b'']
   \<and> exec nfa_long_branch ''ab'' = Inl IndexError"
proof (intro conjI)
  show "accepting_run nfa_long_branch 0 ''ab'' [normal_rule 3 ''a'', normal_rule 4 ''b'']"
    by code_simp
  show "exec nfa_long_branch ''ab'' = Inl IndexError"
    by (rule exec_by_iter [where k = 6]) code_simp
qed

end
